theory Spec2Isabelle
  imports Main "HOL-Library.Sublist"
begin

section \<open>The map engine as seen by the service\<close>

text \<open>
  The service of \<^verbatim>\<open>map.service.ts\<close> never computes anything about the map itself: it calls
  the wrapped engine. A marker or a popup is an object of the engine, known here by its
  identity only.
\<close>

type_synonym marker = nat
type_synonym popup = nat

text \<open>
  The engine calls the modelled methods make: \<^verbatim>\<open>new Map(options)\<close>,
  \<^verbatim>\<open>mapInstance.remove()\<close>, \<^verbatim>\<open>mapInstance.off(type, layerId)\<close>,
  \<^verbatim>\<open>mapInstance.removeLayer(id)\<close>, \<^verbatim>\<open>mapInstance.removeSource(id)\<close>,
  \<^verbatim>\<open>mapInstance.removeImage(id)\<close>, \<^verbatim>\<open>marker.remove()\<close> and \<^verbatim>\<open>popup.remove()\<close>.
\<close>

datatype call =
    MapNew
  | MapRemove
  | MapOff string string
  | MapRemoveLayer string
  | MapRemoveSource string
  | MapRemoveImage string
  | MarkerRemove marker
  | PopupRemove popup

text \<open>
  A removal request is one call of a public removal method of the service. Listeners that
  the engine fires synchronously during a call (the close event of a popup, a data or error
  event of the map) run application code, and that code may make such requests before the
  engine call returns. Whatever else a listener might do (call \<^verbatim>\<open>applyChanges\<close> itself,
  destroy the map) is outside the model.
\<close>

datatype request =
    RemoveLayer string
  | RemoveSource string
  | RemoveMarker marker
  | RemovePopupFromMap popup bool
  | RemoveImage string

text \<open>How a method ends: it returns, or an exception leaves it (raised at the given call).\<close>

datatype completion = Returned | Thrown call

text \<open>
  What the engine does with one call: the removal requests that the listeners it fires make
  on the service, and whether the call then throws.
\<close>

record response =
  throws :: bool
  requests :: "request list"

text \<open>
  The fields of \<^verbatim>\<open>MapService\<close> that the removal queue uses, together with what the
  service touches outside itself: whether \<^verbatim>\<open>this.subscription\<close> is closed, how many
  subscriptions of \<^verbatim>\<open>applyChanges\<close> to the zone and of the resize handler to the emitter
  are live (every \<^verbatim>\<open>createMap\<close> makes new ones), the \<^verbatim>\<open>_listeners\<close> table of every popup
  (the event types that have listeners; \<open>None\<close> while the popup has no table), and three
  logs that nothing in the service reads: \<open>calls\<close>, the engine calls made so far,
  \<open>reentered\<close>, the removal requests made by listeners during engine calls so far, and
  \<open>reported\<close>, the calls whose exception left a flush that the trigger ran and was
  reported by the subscription library.
\<close>

record state =
  mapInstance :: bool
  layerIdsToRemove :: "string list"
  sourceIdsToRemove :: "string list"
  markersToRemove :: "marker list"
  popupsToRemove :: "popup list"
  imageIdsToRemove :: "string list"
  subscription_closed :: bool
  subChanges :: nat
  subResize :: nat
  resizeEventEmitter :: bool
  popup_listeners :: "popup \<Rightarrow> string list option"
  calls :: "call list"
  reentered :: "request list"
  reported :: "call list"

type_synonym engine = "state \<Rightarrow> call \<Rightarrow> response"

text \<open>
  The field initialisers and the constructor: the five arrays start empty, \<^verbatim>\<open>mapInstance\<close>
  is not assigned yet, \<^verbatim>\<open>subscription\<close> is a fresh open \<^verbatim>\<open>Subscription\<close>. The optional
  \<^verbatim>\<open>MglResizeEventEmitter\<close> is injected or absent.
\<close>

definition new_MapService :: "bool \<Rightarrow> (popup \<Rightarrow> string list option) \<Rightarrow> state" where
  "new_MapService emitter listeners =
     \<lparr>mapInstance = False,
      layerIdsToRemove = [], sourceIdsToRemove = [], markersToRemove = [],
      popupsToRemove = [], imageIdsToRemove = [],
      subscription_closed = False, subChanges = 0, subResize = 0,
      resizeEventEmitter = emitter,
      popup_listeners = listeners, calls = [], reentered = [], reported = []\<rparr>"

section \<open>Requesting a removal\<close>

text \<open>
  The five public removal methods, in the order of the source. Each is one
  \<^verbatim>\<open>push\<close> onto the array of its kind; \<^verbatim>\<open>removePopupFromMap\<close> first deletes the close
  listeners of the popup when it is asked to skip the close event.
\<close>

definition removeLayer :: "string \<Rightarrow> state \<Rightarrow> state" where
  "removeLayer layerId w = w\<lparr>layerIdsToRemove := layerIdsToRemove w @ [layerId]\<rparr>"

definition removeMarker :: "marker \<Rightarrow> state \<Rightarrow> state" where
  "removeMarker m w = w\<lparr>markersToRemove := markersToRemove w @ [m]\<rparr>"

text \<open>
  \<^verbatim>\<open>delete popup._listeners['close']\<close>, guarded in the source by
  \<^verbatim>\<open>skipCloseEvent && popup._listeners\<close>.
\<close>

definition delete_close_listeners :: "popup \<Rightarrow> state \<Rightarrow> state" where
  "delete_close_listeners p w =
     (case popup_listeners w p of
        None \<Rightarrow> w
      | Some types \<Rightarrow>
          w\<lparr>popup_listeners := (popup_listeners w)(p := Some (removeAll ''close'' types))\<rparr>)"

definition removePopupFromMap :: "popup \<Rightarrow> bool \<Rightarrow> state \<Rightarrow> state" where
  "removePopupFromMap p skipCloseEvent w =
     (let w1 = (if skipCloseEvent then delete_close_listeners p w else w)
      in w1\<lparr>popupsToRemove := popupsToRemove w1 @ [p]\<rparr>)"

definition removeImage :: "string \<Rightarrow> state \<Rightarrow> state" where
  "removeImage imageId w = w\<lparr>imageIdsToRemove := imageIdsToRemove w @ [imageId]\<rparr>"

definition removeSource :: "string \<Rightarrow> state \<Rightarrow> state" where
  "removeSource sourceId w = w\<lparr>sourceIdsToRemove := sourceIdsToRemove w @ [sourceId]\<rparr>"

text \<open>A request performed on the service: the call of the method it stands for.\<close>

fun perform :: "request \<Rightarrow> state \<Rightarrow> state" where
  "perform (RemoveLayer layerId) w = removeLayer layerId w"
| "perform (RemoveSource sourceId) w = removeSource sourceId w"
| "perform (RemoveMarker m) w = removeMarker m w"
| "perform (RemovePopupFromMap p skipCloseEvent) w = removePopupFromMap p skipCloseEvent w"
| "perform (RemoveImage imageId) w = removeImage imageId w"

section \<open>Calling the engine\<close>

text \<open>
  A method of \<^verbatim>\<open>this.mapInstance\<close> cannot be called before \<^verbatim>\<open>createMap\<close> has assigned the
  field: the property access on \<^verbatim>\<open>undefined\<close> throws and the engine is not reached. A marker
  or a popup is called directly.
\<close>

fun on_map :: "call \<Rightarrow> bool" where
  "on_map MapNew = False"
| "on_map (MarkerRemove m) = False"
| "on_map (PopupRemove p) = False"
| "on_map c = True"

text \<open>
  One engine call: it is logged, the requests of the listeners it fires are performed on
  the service in their order, and then the call returns or throws.
\<close>

definition invoke :: "engine \<Rightarrow> call \<Rightarrow> state \<Rightarrow> completion \<times> state" where
  "invoke eng c w =
     (if on_map c \<and> \<not> mapInstance w then (Thrown c, w)
      else
        let r = eng w c;
            w1 = w\<lparr>calls := calls w @ [c], reentered := reentered w @ requests r\<rparr>;
            w2 = fold perform (requests r) w1
        in (if throws r then Thrown c else Returned, w2))"

text \<open>Statements in sequence: an exception skips the statements after it.\<close>

fun invoke_all :: "engine \<Rightarrow> call list \<Rightarrow> state \<Rightarrow> completion \<times> state" where
  "invoke_all eng [] w = (Returned, w)"
| "invoke_all eng (c # cs) w =
     (case invoke eng c w of
        (Returned, w') \<Rightarrow> invoke_all eng cs w'
      | (Thrown x, w') \<Rightarrow> (Thrown x, w'))"

section \<open>Applying the pending removals\<close>

text \<open>
  \<^verbatim>\<open>for (const x of this.arr) body\<close>. The array iterator keeps the array object and an
  index, and compares the index with the length of the array at every step, so an element
  pushed while the loop runs is visited too. The methods modelled here push onto the
  arrays and assign them only after their loop, so the array object of the loop is the
  current value of the field throughout. A loop in which every step pushes a new element
  does not end: the result is \<open>None\<close>.
\<close>

partial_function (option) for_of ::
  "(state \<Rightarrow> 'a list) \<Rightarrow> ('a \<Rightarrow> state \<Rightarrow> completion \<times> state) \<Rightarrow> nat \<Rightarrow> state
     \<Rightarrow> (completion \<times> state) option" where
  "for_of arr body i w =
     (if i < length (arr w) then
        (case body (arr w ! i) w of
           (Returned, w') \<Rightarrow> for_of arr body (Suc i) w'
         | (Thrown x, w') \<Rightarrow> Some (Thrown x, w'))
      else Some (Returned, w))"

text \<open>The statement after a loop runs only when the loop has ended without an exception.\<close>

definition and_then ::
  "(completion \<times> state) option \<Rightarrow> (state \<Rightarrow> (completion \<times> state) option)
     \<Rightarrow> (completion \<times> state) option" where
  "and_then r f =
     (case r of
        None \<Rightarrow> None
      | Some (Returned, w) \<Rightarrow> f w
      | Some (Thrown x, w) \<Rightarrow> Some (Thrown x, w))"

text \<open>
  The body of the loop of \<^verbatim>\<open>removeLayers\<close>: the listeners of the four interaction events
  of the layer are unbound, then the layer is removed. The bodies of the other four loops
  are one call each. Every loop is followed by the assignment of a new empty array.
\<close>

definition layer_calls :: "string \<Rightarrow> call list" where
  "layer_calls layerId =
     [MapOff ''click'' layerId, MapOff ''mouseenter'' layerId, MapOff ''mouseleave'' layerId,
      MapOff ''mousemove'' layerId, MapRemoveLayer layerId]"

definition removeLayers :: "engine \<Rightarrow> state \<Rightarrow> (completion \<times> state) option" where
  "removeLayers eng w =
     and_then (for_of layerIdsToRemove (\<lambda>layerId. invoke_all eng (layer_calls layerId)) 0 w)
       (\<lambda>w'. Some (Returned, w'\<lparr>layerIdsToRemove := []\<rparr>))"

definition removeSources :: "engine \<Rightarrow> state \<Rightarrow> (completion \<times> state) option" where
  "removeSources eng w =
     and_then (for_of sourceIdsToRemove (\<lambda>sourceId. invoke eng (MapRemoveSource sourceId)) 0 w)
       (\<lambda>w'. Some (Returned, w'\<lparr>sourceIdsToRemove := []\<rparr>))"

definition removeMarkers :: "engine \<Rightarrow> state \<Rightarrow> (completion \<times> state) option" where
  "removeMarkers eng w =
     and_then (for_of markersToRemove (\<lambda>m. invoke eng (MarkerRemove m)) 0 w)
       (\<lambda>w'. Some (Returned, w'\<lparr>markersToRemove := []\<rparr>))"

definition removePopups :: "engine \<Rightarrow> state \<Rightarrow> (completion \<times> state) option" where
  "removePopups eng w =
     and_then (for_of popupsToRemove (\<lambda>p. invoke eng (PopupRemove p)) 0 w)
       (\<lambda>w'. Some (Returned, w'\<lparr>popupsToRemove := []\<rparr>))"

definition removeImages :: "engine \<Rightarrow> state \<Rightarrow> (completion \<times> state) option" where
  "removeImages eng w =
     and_then (for_of imageIdsToRemove (\<lambda>imageId. invoke eng (MapRemoveImage imageId)) 0 w)
       (\<lambda>w'. Some (Returned, w'\<lparr>imageIdsToRemove := []\<rparr>))"

text \<open>
  \<^verbatim>\<open>zone.runOutsideAngular(fn)\<close> runs \<^verbatim>\<open>fn\<close> at once and lets its exception through.
\<close>

definition applyChanges :: "engine \<Rightarrow> state \<Rightarrow> (completion \<times> state) option" where
  "applyChanges eng w =
     and_then (and_then (and_then (and_then (removeLayers eng w)
       (removeSources eng)) (removeMarkers eng)) (removePopups eng)) (removeImages eng)"

section \<open>Creating and destroying the map\<close>

text \<open>
  \<^verbatim>\<open>createMap\<close> builds the map, subscribes \<^verbatim>\<open>applyChanges\<close> to \<^verbatim>\<open>zone.onMicrotaskEmpty\<close> and
  adds that subscription (and one to the resize emitter, when there is an emitter) to
  \<^verbatim>\<open>this.subscription\<close>. Adding to a \<^verbatim>\<open>Subscription\<close> that is already closed cancels the
  added one at once. The zone assertion and the clean-up of the options are outside the model.
\<close>

definition createMap :: "engine \<Rightarrow> state \<Rightarrow> completion \<times> state" where
  "createMap eng w =
     (case invoke eng MapNew w of
        (Thrown x, w') \<Rightarrow> (Thrown x, w')
      | (Returned, w') \<Rightarrow>
          (Returned,
           w'\<lparr>mapInstance := True,
              subResize :=
                (if resizeEventEmitter w' \<and> \<not> subscription_closed w' then Suc (subResize w')
                 else subResize w'),
              subChanges :=
                (if subscription_closed w' then subChanges w' else Suc (subChanges w'))\<rparr>))"

text \<open>
  \<^verbatim>\<open>this.subscription.unsubscribe()\<close> closes the subscription and cancels all that were
  added to it; then the map is removed.
\<close>

definition destroyMap :: "engine \<Rightarrow> state \<Rightarrow> completion \<times> state" where
  "destroyMap eng w =
     invoke eng MapRemove (w\<lparr>subscription_closed := True, subChanges := 0, subResize := 0\<rparr>)"

text \<open>
  The zone emits \<^verbatim>\<open>onMicrotaskEmpty\<close>. The emitter calls the subscribers that are live when
  the emission starts, one after the other; each runs \<^verbatim>\<open>applyChanges\<close>. The subscription
  library (rxjs, in the version 6 whose import paths the source uses) cancels a subscriber
  whose handler throws and reports the exception after the emission, which goes on to the
  next subscriber and returns. So the trigger itself never ends with an exception, and a
  flush that throws is the last flush its subscriber runs.
\<close>

fun emit_to :: "nat \<Rightarrow> engine \<Rightarrow> state \<Rightarrow> (completion \<times> state) option" where
  "emit_to 0 eng w = Some (Returned, w)"
| "emit_to (Suc n) eng w =
     (case applyChanges eng w of
        None \<Rightarrow> None
      | Some (Returned, w') \<Rightarrow> emit_to n eng w'
      | Some (Thrown x, w') \<Rightarrow>
          emit_to n eng (w'\<lparr>subChanges := subChanges w' - 1, reported := reported w' @ [x]\<rparr>))"

definition onMicrotaskEmpty :: "engine \<Rightarrow> state \<Rightarrow> (completion \<times> state) option" where
  "onMicrotaskEmpty eng w = emit_to (subChanges w) eng w"

text \<open>The loop is evaluated with its defining equation.\<close>

declare for_of.simps [code]

section \<open>Vocabulary of the statements\<close>

text \<open>
  The identifiers that a list of removal requests adds to each of the five arrays, in the
  order of the requests.
\<close>

definition layers_of :: "request list \<Rightarrow> string list" where
  "layers_of rs = concat (map (\<lambda>r. case r of RemoveLayer x \<Rightarrow> [x] | _ \<Rightarrow> []) rs)"

definition sources_of :: "request list \<Rightarrow> string list" where
  "sources_of rs = concat (map (\<lambda>r. case r of RemoveSource x \<Rightarrow> [x] | _ \<Rightarrow> []) rs)"

definition markers_of :: "request list \<Rightarrow> marker list" where
  "markers_of rs = concat (map (\<lambda>r. case r of RemoveMarker x \<Rightarrow> [x] | _ \<Rightarrow> []) rs)"

definition popups_of :: "request list \<Rightarrow> popup list" where
  "popups_of rs = concat (map (\<lambda>r. case r of RemovePopupFromMap x b \<Rightarrow> [x] | _ \<Rightarrow> []) rs)"

definition images_of :: "request list \<Rightarrow> string list" where
  "images_of rs = concat (map (\<lambda>r. case r of RemoveImage x \<Rightarrow> [x] | _ \<Rightarrow> []) rs)"

text \<open>
  The engine calls that tear down given entries in the order the design calls for: the
  layers (each with its four \<^verbatim>\<open>off\<close> calls before its \<^verbatim>\<open>removeLayer\<close>), then the
  sources, the markers, the popups and the images; \<open>pending_calls\<close> is this list for the
  entries that are pending in a state.
\<close>

definition flush_calls ::
  "string list \<Rightarrow> string list \<Rightarrow> marker list \<Rightarrow> popup list \<Rightarrow> string list \<Rightarrow> call list" where
  "flush_calls ls ss ms ps is =
     concat (map layer_calls ls) @ map MapRemoveSource ss @ map MarkerRemove ms
       @ map PopupRemove ps @ map MapRemoveImage is"

definition pending_calls :: "state \<Rightarrow> call list" where
  "pending_calls w =
     flush_calls (layerIdsToRemove w) (sourceIdsToRemove w) (markersToRemove w)
       (popupsToRemove w) (imageIdsToRemove w)"

text \<open>All five arrays are empty.\<close>

definition pending_empty :: "state \<Rightarrow> bool" where
  "pending_empty w \<longleftrightarrow>
     layerIdsToRemove w = [] \<and> sourceIdsToRemove w = [] \<and> markersToRemove w = [] \<and>
     popupsToRemove w = [] \<and> imageIdsToRemove w = []"

text \<open>
  Two assumptions on an engine: its listeners make no removal request during any call
  (\<open>silent\<close>), and none of its calls throws (\<open>unfailing\<close>).
\<close>

definition silent :: "engine \<Rightarrow> bool" where
  "silent eng \<longleftrightarrow> (\<forall>w c. requests (eng w c) = [])"

definition unfailing :: "engine \<Rightarrow> bool" where
  "unfailing eng \<longleftrightarrow> (\<forall>w c. \<not> throws (eng w c))"

text \<open>
  The position, in the order of \<^verbatim>\<open>applyChanges\<close>, of the loop that makes a call: 0 for the
  layers up to 4 for the images (5 for a call that no loop makes). \<open>emptied_before k\<close>
  holds when the arrays of the loops before position \<open>k\<close> are empty, and
  \<open>entry_pending x\<close> when the entry that call \<open>x\<close> tears down is in the array of its kind.
\<close>

fun stage :: "call \<Rightarrow> nat" where
  "stage (MapOff t layerId) = 0"
| "stage (MapRemoveLayer layerId) = 0"
| "stage (MapRemoveSource sourceId) = 1"
| "stage (MarkerRemove m) = 2"
| "stage (PopupRemove p) = 3"
| "stage (MapRemoveImage imageId) = 4"
| "stage MapNew = 5"
| "stage MapRemove = 5"

definition emptied_before :: "nat \<Rightarrow> state \<Rightarrow> bool" where
  "emptied_before k w \<longleftrightarrow>
     (0 < k \<longrightarrow> layerIdsToRemove w = []) \<and> (1 < k \<longrightarrow> sourceIdsToRemove w = []) \<and>
     (2 < k \<longrightarrow> markersToRemove w = []) \<and> (3 < k \<longrightarrow> popupsToRemove w = []) \<and>
     (4 < k \<longrightarrow> imageIdsToRemove w = [])"

fun entry_pending :: "call \<Rightarrow> state \<Rightarrow> bool" where
  "entry_pending (MapOff t layerId) w = (layerId \<in> set (layerIdsToRemove w))"
| "entry_pending (MapRemoveLayer layerId) w = (layerId \<in> set (layerIdsToRemove w))"
| "entry_pending (MapRemoveSource sourceId) w = (sourceId \<in> set (sourceIdsToRemove w))"
| "entry_pending (MarkerRemove m) w = (m \<in> set (markersToRemove w))"
| "entry_pending (PopupRemove p) w = (p \<in> set (popupsToRemove w))"
| "entry_pending (MapRemoveImage imageId) w = (imageId \<in> set (imageIdsToRemove w))"
| "entry_pending MapNew w = False"
| "entry_pending MapRemove w = False"

text \<open>
  \<open>drained k w\<close> is \<open>w\<close> with the arrays of the first \<open>k\<close> kinds reset. \<open>at_call w q x\<close> is
  the state in which a flush of \<open>w\<close> makes the call \<open>x\<close> after the calls \<open>q\<close>, while the
  listeners make no request: the arrays of the kinds before that of \<open>x\<close> have been reset
  and the call log has grown by \<open>q\<close>.
\<close>

definition drained :: "nat \<Rightarrow> state \<Rightarrow> state" where
  "drained k w =
     w\<lparr>layerIdsToRemove := (if 0 < k then [] else layerIdsToRemove w),
       sourceIdsToRemove := (if 1 < k then [] else sourceIdsToRemove w),
       markersToRemove := (if 2 < k then [] else markersToRemove w),
       popupsToRemove := (if 3 < k then [] else popupsToRemove w),
       imageIdsToRemove := (if 4 < k then [] else imageIdsToRemove w)\<rparr>"

definition at_call :: "state \<Rightarrow> call list \<Rightarrow> call \<Rightarrow> state" where
  "at_call w q x = (drained (stage x) w)\<lparr>calls := calls w @ q\<rparr>"

text \<open>
  The subscription of \<^verbatim>\<open>applyChanges\<close> to the zone has been cancelled and cannot be renewed.
\<close>

definition destroyed :: "state \<Rightarrow> bool" where
  "destroyed w \<longleftrightarrow> subscription_closed w \<and> subChanges w = 0"

text \<open>Readers of a result: how the method ended, and a field of the state it left.\<close>

definition outcome :: "(completion \<times> state) option \<Rightarrow> completion option" where
  "outcome r = map_option fst r"

definition final :: "(state \<Rightarrow> 'a) \<Rightarrow> (completion \<times> state) option \<Rightarrow> 'a option" where
  "final field r = map_option (field \<circ> snd) r"

section \<open>Vocabulary of the proofs\<close>

text \<open>
  \<open>appended w rs w'\<close>: state \<open>w'\<close> is \<open>w\<close> with the requests \<open>rs\<close> appended to the
  arrays, whatever the logs are; the popup listeners are known to be the same only when
  there is no request.
\<close>

definition appended :: "state \<Rightarrow> request list \<Rightarrow> state \<Rightarrow> bool" where
  "appended w rs w' \<longleftrightarrow>
     layerIdsToRemove w' = layerIdsToRemove w @ layers_of rs \<and>
     sourceIdsToRemove w' = sourceIdsToRemove w @ sources_of rs \<and>
     markersToRemove w' = markersToRemove w @ markers_of rs \<and>
     popupsToRemove w' = popupsToRemove w @ popups_of rs \<and>
     imageIdsToRemove w' = imageIdsToRemove w @ images_of rs \<and>
     mapInstance w' = mapInstance w \<and>
     subscription_closed w' = subscription_closed w \<and>
     subChanges w' = subChanges w \<and>
     subResize w' = subResize w \<and>
     reported w' = reported w \<and>
     resizeEventEmitter w' = resizeEventEmitter w \<and>
     (rs = [] \<longrightarrow> popup_listeners w' = popup_listeners w)"

text \<open>
  What an engine can do: \<open>asked eng r\<close> when some call of it makes the request \<open>r\<close>,
  \<open>may_return eng c\<close> and \<open>may_throw eng c\<close> when call \<open>c\<close> returns, or throws, in some state.
\<close>

definition asked :: "engine \<Rightarrow> request \<Rightarrow> bool" where
  "asked eng r \<longleftrightarrow> (\<exists>v c. r \<in> set (requests (eng v c)))"

definition may_return :: "engine \<Rightarrow> call \<Rightarrow> bool" where
  "may_return eng c \<longleftrightarrow> (\<exists>v. \<not> throws (eng v c))"

definition may_throw :: "engine \<Rightarrow> call \<Rightarrow> bool" where
  "may_throw eng c \<longleftrightarrow> (\<exists>v. throws (eng v c))"

text \<open>
  \<open>stopped eng m cs st p\<close>: of the calls \<open>cs\<close> to make in sequence, the calls \<open>p\<close> were
  made and the sequence ended as \<open>st\<close>. When it returned, all of \<open>cs\<close> were made. When it
  threw at \<open>x\<close>, the calls before \<open>x\<close> were made and either \<open>x\<close> is a call on a map that
  does not exist (\<open>m\<close> is false) and was not made, or \<open>x\<close> was made and threw.
  \<open>traced eng w rs cs st w'\<close>: from \<open>w\<close> to \<open>w'\<close> the call log grew in that way and the
  request log grew by \<open>rs\<close>.
\<close>

definition stopped :: "engine \<Rightarrow> bool \<Rightarrow> call list \<Rightarrow> completion \<Rightarrow> call list \<Rightarrow> bool" where
  "stopped eng m cs st p \<longleftrightarrow>
     (case st of
        Returned \<Rightarrow> p = cs \<and> (\<forall>c\<in>set cs. may_return eng c)
      | Thrown x \<Rightarrow>
          (\<exists>q rest. cs = q @ x # rest \<and> (\<forall>c\<in>set q. may_return eng c) \<and>
             (p = q \<and> on_map x \<and> \<not> m \<or> p = q @ [x] \<and> may_throw eng x)))"

definition traced ::
  "engine \<Rightarrow> state \<Rightarrow> request list \<Rightarrow> call list \<Rightarrow> completion \<Rightarrow> state \<Rightarrow> bool" where
  "traced eng w rs cs st w' \<longleftrightarrow>
     reentered w' = reentered w @ rs \<and> mapInstance w' = mapInstance w \<and>
     (\<forall>r\<in>set rs. asked eng r) \<and>
     (\<exists>p. calls w' = calls w @ p \<and> stopped eng (mapInstance w) cs st p)"

text \<open>
  \<open>reached st k\<close> is the number of loops that have reset their array when the flush,
  \<open>k\<close> loops into it, has ended as \<open>st\<close>; \<open>after eng w cs k r\<close> describes the result \<open>r\<close>
  of the first \<open>k\<close> loops under an engine whose listeners are silent, where \<open>cs\<close> are the
  calls of those loops.
\<close>

definition reached :: "completion \<Rightarrow> nat \<Rightarrow> nat" where
  "reached st k = (case st of Returned \<Rightarrow> k | Thrown x \<Rightarrow> stage x)"

definition after ::
  "engine \<Rightarrow> state \<Rightarrow> call list \<Rightarrow> nat \<Rightarrow> (completion \<times> state) option \<Rightarrow> bool" where
  "after eng w cs k r \<longleftrightarrow>
     (\<exists>st w'. r = Some (st, w') \<and> traced eng w [] cs st w' \<and>
        w' = (drained (reached st k) w)\<lparr>calls := calls w'\<rparr>)"

text \<open>
  \<open>run_calls eng w q cs\<close> makes the calls \<open>cs\<close> one by one after the calls \<open>q\<close>, each in
  its state \<open>at_call\<close>, up to the first that throws, and gives the calls made;
  \<open>settle w k\<close> turns that into the state which a flush of \<open>w\<close> leaves after \<open>k\<close> loops.
\<close>

fun run_calls :: "engine \<Rightarrow> state \<Rightarrow> call list \<Rightarrow> call list \<Rightarrow> completion \<times> call list" where
  "run_calls eng w q [] = (Returned, q)"
| "run_calls eng w q (x # rest) =
     (if throws (eng (at_call w q x) x) then (Thrown x, q @ [x])
      else run_calls eng w (q @ [x]) rest)"

definition settle :: "state \<Rightarrow> nat \<Rightarrow> completion \<times> call list \<Rightarrow> completion \<times> state" where
  "settle w k r =
     (case r of
        (Returned, p) \<Rightarrow> (Returned, (drained k w)\<lparr>calls := calls w @ p\<rparr>)
      | (Thrown x, p) \<Rightarrow> (Thrown x, (drained (stage x) w)\<lparr>calls := calls w @ p\<rparr>))"

section \<open>Concrete engines and states\<close>

text \<open>
  An engine that does nothing, one that throws at one given call, one that throws at a
  call it has received before (the entry is gone by then), and one whose listeners
  answer one given call with removal requests; \<open>chatty_engine\<close> answers the removal of
  marker 1 by requesting the removal of marker 2, of image \<^verbatim>\<open>i9\<close> and of layer \<^verbatim>\<open>l9\<close>.
\<close>

definition quiet_engine :: engine where
  "quiet_engine w c = \<lparr>throws = False, requests = []\<rparr>"

definition failing_engine :: "call \<Rightarrow> engine" where
  "failing_engine x w c = \<lparr>throws = (c = x), requests = []\<rparr>"

definition repeat_failing_engine :: engine where
  "repeat_failing_engine w c = \<lparr>throws = (c \<in> set (calls w)), requests = []\<rparr>"

definition answering_engine :: "call \<Rightarrow> request list \<Rightarrow> engine" where
  "answering_engine x rs w c = \<lparr>throws = False, requests = (if c = x then rs else [])\<rparr>"

definition chatty_engine :: engine where
  "chatty_engine =
     answering_engine (MarkerRemove 1) [RemoveMarker 2, RemoveImage ''i9'', RemoveLayer ''l9'']"

text \<open>
  A service whose map has been created (\<open>ready\<close>), the same with entries of four kinds
  pending (\<open>stocked\<close>), a new service that knows a popup with listeners (\<open>listening\<close>), and
  the state that the flush of marker 1 under \<open>chatty_engine\<close> leaves (\<open>chatted\<close>).
\<close>

definition ready :: state where
  "ready = (new_MapService False (\<lambda>p. None))\<lparr>mapInstance := True, subChanges := 1\<rparr>"

definition stocked :: state where
  "stocked = removeImage ''i1'' (removeMarker 1 (removeSource ''s1''
     (removeLayer ''l2'' (removeLayer ''l1'' ready))))"

definition listening :: state where
  "listening = new_MapService False (\<lambda>p. if p = 1 then Some [''open'', ''close''] else None)"

definition chatted :: state where
  "chatted =
     ready\<lparr>layerIdsToRemove := [''l9''],
       calls := [MarkerRemove 1, MarkerRemove 2, MapRemoveImage ''i9''],
       reentered := [RemoveMarker 2, RemoveImage ''i9'', RemoveLayer ''l9'']\<rparr>"

section \<open>Requests append to the arrays\<close>

lemma of_append [simp]:
  "layers_of (a @ b) = layers_of a @ layers_of b"
  "sources_of (a @ b) = sources_of a @ sources_of b"
  "markers_of (a @ b) = markers_of a @ markers_of b"
  "popups_of (a @ b) = popups_of a @ popups_of b"
  "images_of (a @ b) = images_of a @ images_of b"
  by (simp_all add: layers_of_def sources_of_def markers_of_def popups_of_def images_of_def)

lemma of_Nil [simp]:
  "layers_of [] = []" "sources_of [] = []" "markers_of [] = []" "popups_of [] = []"
  "images_of [] = []"
  by (simp_all add: layers_of_def sources_of_def markers_of_def popups_of_def images_of_def)

lemma of_Cons:
  "layers_of (r # rs) = (case r of RemoveLayer x \<Rightarrow> [x] | _ \<Rightarrow> []) @ layers_of rs"
  "sources_of (r # rs) = (case r of RemoveSource x \<Rightarrow> [x] | _ \<Rightarrow> []) @ sources_of rs"
  "markers_of (r # rs) = (case r of RemoveMarker x \<Rightarrow> [x] | _ \<Rightarrow> []) @ markers_of rs"
  "popups_of (r # rs) = (case r of RemovePopupFromMap x b \<Rightarrow> [x] | _ \<Rightarrow> []) @ popups_of rs"
  "images_of (r # rs) = (case r of RemoveImage x \<Rightarrow> [x] | _ \<Rightarrow> []) @ images_of rs"
  by (simp_all add: layers_of_def sources_of_def markers_of_def popups_of_def images_of_def)

lemma appended_refl: "appended w [] w"
  by (simp add: appended_def)

lemma appended_trans:
  "appended w a w1 \<Longrightarrow> appended w1 b w2 \<Longrightarrow> appended w (a @ b) w2"
  by (simp add: appended_def)

lemma delete_close_listeners_fields:
  "layerIdsToRemove (delete_close_listeners p w) = layerIdsToRemove w"
  "sourceIdsToRemove (delete_close_listeners p w) = sourceIdsToRemove w"
  "markersToRemove (delete_close_listeners p w) = markersToRemove w"
  "popupsToRemove (delete_close_listeners p w) = popupsToRemove w"
  "imageIdsToRemove (delete_close_listeners p w) = imageIdsToRemove w"
  "mapInstance (delete_close_listeners p w) = mapInstance w"
  "subscription_closed (delete_close_listeners p w) = subscription_closed w"
  "subChanges (delete_close_listeners p w) = subChanges w"
  "subResize (delete_close_listeners p w) = subResize w"
  "reported (delete_close_listeners p w) = reported w"
  "resizeEventEmitter (delete_close_listeners p w) = resizeEventEmitter w"
  "calls (delete_close_listeners p w) = calls w"
  "reentered (delete_close_listeners p w) = reentered w"
  by (simp_all add: delete_close_listeners_def split: option.split)

lemma perform_appended:
  "appended w [r] (perform r w) \<and> calls (perform r w) = calls w
     \<and> reentered (perform r w) = reentered w"
  by (cases r)
    (simp_all add: appended_def of_Cons removeLayer_def removeSource_def removeMarker_def
      removePopupFromMap_def removeImage_def Let_def delete_close_listeners_fields)

lemma fold_perform_appended:
  "appended w rs (fold perform rs w) \<and> calls (fold perform rs w) = calls w
     \<and> reentered (fold perform rs w) = reentered w"
proof (induction rs arbitrary: w)
  case Nil
  show ?case by (simp add: appended_refl)
next
  case (Cons r rs)
  have "appended w ([r] @ rs) (fold perform rs (perform r w))"
    using perform_appended [of w r] Cons.IH [of "perform r w"] by (blast intro: appended_trans)
  then show ?case
    using perform_appended [of w r] Cons.IH [of "perform r w"] by simp
qed

section \<open>Traces of engine calls\<close>

lemma stopped_Nil: "stopped eng m [] Returned []"
  by (simp add: stopped_def)

lemma stopped_seq:
  assumes "stopped eng m cs1 Returned p1" and "stopped eng m cs2 st p2"
  shows "stopped eng m (cs1 @ cs2) st (p1 @ p2)"
proof (cases st)
  case Returned
  then show ?thesis
    using assms by (auto simp: stopped_def)
next
  case (Thrown x)
  from assms(1) have p1: "p1 = cs1" "\<forall>c\<in>set cs1. may_return eng c"
    by (simp_all add: stopped_def)
  from assms(2) Thrown obtain q rest where q: "cs2 = q @ x # rest"
    "\<forall>c\<in>set q. may_return eng c"
    "p2 = q \<and> on_map x \<and> \<not> m \<or> p2 = q @ [x] \<and> may_throw eng x"
    by (auto simp: stopped_def)
  have "cs1 @ cs2 = (cs1 @ q) @ x # rest" "\<forall>c\<in>set (cs1 @ q). may_return eng c"
    "p1 @ p2 = cs1 @ q \<and> on_map x \<and> \<not> m \<or> p1 @ p2 = (cs1 @ q) @ [x] \<and> may_throw eng x"
    using p1 q by auto
  then show ?thesis
    unfolding stopped_def Thrown completion.case by blast
qed

lemma stopped_Thrown_more:
  assumes "stopped eng m cs1 (Thrown x) p"
  shows "stopped eng m (cs1 @ cs2) (Thrown x) p"
proof -
  from assms obtain q rest where q: "cs1 = q @ x # rest" "\<forall>c\<in>set q. may_return eng c"
    "p = q \<and> on_map x \<and> \<not> m \<or> p = q @ [x] \<and> may_throw eng x"
    by (auto simp: stopped_def)
  have "cs1 @ cs2 = q @ x # (rest @ cs2)"
    using q(1) by simp
  then show ?thesis
    unfolding stopped_def completion.case using q(2,3) by blast
qed

lemma traced_Nil: "traced eng w [] [] Returned w"
  by (simp add: traced_def stopped_Nil)

lemma traced_seq:
  assumes "traced eng w a cs1 Returned w1" and "traced eng w1 b cs2 st w2"
  shows "traced eng w (a @ b) (cs1 @ cs2) st w2"
proof -
  from assms(1) obtain p1 where 1: "reentered w1 = reentered w @ a"
    "mapInstance w1 = mapInstance w" "\<forall>r\<in>set a. asked eng r" "calls w1 = calls w @ p1"
    "stopped eng (mapInstance w) cs1 Returned p1"
    unfolding traced_def by blast
  from assms(2) obtain p2 where 2: "reentered w2 = reentered w1 @ b"
    "mapInstance w2 = mapInstance w1" "\<forall>r\<in>set b. asked eng r" "calls w2 = calls w1 @ p2"
    "stopped eng (mapInstance w1) cs2 st p2"
    unfolding traced_def by blast
  have "stopped eng (mapInstance w) (cs1 @ cs2) st (p1 @ p2)"
    using 1(5) 2(5) 1(2) by (simp add: stopped_seq)
  moreover have "calls w2 = calls w @ p1 @ p2"
    using 1(4) 2(4) by simp
  ultimately show ?thesis
    unfolding traced_def using 1(1,2,3) 2(1,2,3) by auto
qed

lemma traced_Thrown_more:
  "traced eng w a cs1 (Thrown x) w1 \<Longrightarrow> traced eng w a (cs1 @ cs2) (Thrown x) w1"
  unfolding traced_def using stopped_Thrown_more by blast

lemma stopped_ReturnedI:
  "\<forall>c\<in>set cs. may_return eng c \<Longrightarrow> stopped eng m cs Returned cs"
  by (simp add: stopped_def)

lemma stopped_ThrownI:
  "cs = q @ x # rest \<Longrightarrow> \<forall>c\<in>set q. may_return eng c
     \<Longrightarrow> p = q \<and> on_map x \<and> \<not> m \<or> p = q @ [x] \<and> may_throw eng x
     \<Longrightarrow> stopped eng m cs (Thrown x) p"
  unfolding stopped_def completion.case by blast

lemma tracedI:
  "reentered w' = reentered w @ rs \<Longrightarrow> mapInstance w' = mapInstance w
     \<Longrightarrow> \<forall>r\<in>set rs. asked eng r \<Longrightarrow> calls w' = calls w @ p
     \<Longrightarrow> stopped eng (mapInstance w) cs st p \<Longrightarrow> traced eng w rs cs st w'"
  unfolding traced_def by blast

lemma invoke_traced:
  assumes "invoke eng c w = (st, w')"
  shows "\<exists>rs. traced eng w rs [c] st w' \<and> appended w rs w'"
proof (cases "on_map c \<and> \<not> mapInstance w")
  case True
  then have r: "st = Thrown c" "w' = w"
    using assms by (simp_all add: invoke_def)
  have "stopped eng (mapInstance w) [c] (Thrown c) []"
    by (rule stopped_ThrownI [of _ "[]" _ "[]"]) (use True in simp_all)
  then have "traced eng w [] [c] st w'"
    unfolding r by (intro tracedI [of _ _ _ _ "[]"]) simp_all
  then have "traced eng w [] [c] st w' \<and> appended w [] w'"
    by (simp add: r appended_refl)
  then show ?thesis ..
next
  case False
  define r where "r = eng w c"
  define w1 where "w1 = w\<lparr>calls := calls w @ [c], reentered := reentered w @ requests r\<rparr>"
  have w': "w' = fold perform (requests r) w1"
    and st: "st = (if throws r then Thrown c else Returned)"
    using assms False by (simp_all add: invoke_def Let_def r_def w1_def)
  have f: "appended w1 (requests r) w'" "calls w' = calls w1" "reentered w' = reentered w1"
    using fold_perform_appended [of w1 "requests r"] by (simp_all add: w')
  have ap: "appended w (requests r) w'"
    using f(1) by (simp add: appended_def w1_def)
  have a: "\<forall>x\<in>set (requests r). asked eng x"
    unfolding asked_def r_def by blast
  have s: "stopped eng (mapInstance w) [c] st [c]"
  proof (cases "throws r")
    case True
    then have "may_throw eng c"
      unfolding may_throw_def r_def by blast
    then have "stopped eng (mapInstance w) [c] (Thrown c) [c]"
      by (intro stopped_ThrownI [of _ "[]" _ "[]"]) simp_all
    then show ?thesis
      using True by (simp add: st)
  next
    case False
    then have "may_return eng c"
      unfolding may_return_def r_def by blast
    then have "stopped eng (mapInstance w) [c] Returned [c]"
      by (intro stopped_ReturnedI) simp
    then show ?thesis
      using False by (simp add: st)
  qed
  have c: "calls w' = calls w @ [c]" and re: "reentered w' = reentered w @ requests r"
    using f(2,3) by (simp_all add: w1_def)
  have m: "mapInstance w' = mapInstance w"
    using ap by (simp add: appended_def)
  have "traced eng w (requests r) [c] st w'"
    using re m a c s by (rule tracedI)
  then show ?thesis
    using ap by blast
qed

lemma invoke_all_traced:
  "invoke_all eng cs w = (st, w') \<Longrightarrow> \<exists>rs. traced eng w rs cs st w' \<and> appended w rs w'"
proof (induction cs arbitrary: w)
  case Nil
  then have "traced eng w [] [] st w' \<and> appended w [] w'"
    by (simp add: traced_Nil appended_refl)
  then show ?case ..
next
  case (Cons c cs)
  obtain s1 w1 where i: "invoke eng c w = (s1, w1)"
    by (cases "invoke eng c w")
  obtain a where a: "traced eng w a [c] s1 w1" "appended w a w1"
    using invoke_traced [OF i] by blast
  show ?case
  proof (cases s1)
    case Returned
    then have "invoke_all eng cs w1 = (st, w')"
      using Cons.prems i by simp
    then obtain b where b: "traced eng w1 b cs st w'" "appended w1 b w'"
      using Cons.IH by blast
    have "traced eng w (a @ b) ([c] @ cs) st w'"
      using a(1) b(1) unfolding Returned by (rule traced_seq)
    moreover have "appended w (a @ b) w'"
      using a(2) b(2) by (rule appended_trans)
    ultimately show ?thesis
      by auto
  next
    case (Thrown x)
    then have "st = Thrown x" "w' = w1"
      using Cons.prems i by simp_all
    then have "traced eng w a ([c] @ cs) st w'"
      using a(1) Thrown by (simp only: traced_Thrown_more)
    then show ?thesis
      using a(2) \<open>w' = w1\<close> by auto
  qed
qed

section \<open>The loop over a live array\<close>

text \<open>
  Whatever the engine does, a loop that ends has made, for every element of the array as
  it is at the end (the elements pushed meanwhile included), the calls of that element, up
  to the call that threw.
\<close>

lemma for_of_traced:
  assumes body: "\<And>x v st v'. body x v = (st, v')
      \<Longrightarrow> \<exists>rs. traced eng v rs (cs x) st v' \<and> appended v rs v'"
    and arr: "\<And>v rs v'. appended v rs v' \<Longrightarrow> arr v' = arr v @ sel rs"
    and run: "for_of arr body i w = Some (st, w')"
  shows "\<exists>rs. traced eng w rs (concat (map cs (drop i (arr w')))) st w' \<and> appended w rs w'"
proof -
  let ?P = "\<lambda>arr' body' i w y. arr' = arr \<and> body' = body \<longrightarrow>
      (\<exists>rs. traced eng w rs (concat (map cs (drop i (arr (snd y))))) (fst y) (snd y)
         \<and> appended w rs (snd y))"
  have "?P arr body i w (st, w')"
  proof (rule for_of.raw_induct [where P = ?P, OF _ run])
    fix f arr' body' i w y
    assume IH: "\<And>a b i w y. f a b i w = Some y \<Longrightarrow> ?P a b i w y"
      and unfolded: "(if i < length (arr' w) then
          (case body' (arr' w ! i) w of
             (Returned, w') \<Rightarrow> f arr' body' (Suc i) w'
           | (Thrown x, w') \<Rightarrow> Some (Thrown x, w'))
          else Some (Returned, w)) = Some y"
    show "?P arr' body' i w y"
    proof (intro impI, elim conjE)
      assume eq: "arr' = arr" "body' = body"
      show "\<exists>rs. traced eng w rs (concat (map cs (drop i (arr (snd y))))) (fst y) (snd y)
         \<and> appended w rs (snd y)"
      proof (cases "i < length (arr w)")
        case False
        then have "y = (Returned, w)"
          using unfolded eq by simp
        then have "traced eng w [] (concat (map cs (drop i (arr (snd y))))) (fst y) (snd y)
           \<and> appended w [] (snd y)"
          using False by (simp add: traced_Nil appended_refl)
        then show ?thesis ..
      next
        case True
        obtain s1 w1 where b: "body (arr w ! i) w = (s1, w1)"
          by (cases "body (arr w ! i) w")
        obtain a where a: "traced eng w a (cs (arr w ! i)) s1 w1" "appended w a w1"
          using body [OF b] by blast
        have ys: "arr w1 = arr w @ sel a"
          using a(2) by (rule arr)
        show ?thesis
        proof (cases s1)
          case (Thrown x)
          then have y: "y = (Thrown x, w1)"
            using unfolded eq True b by simp
          have "drop i (arr w1) = arr w ! i # drop (Suc i) (arr w1)"
            using True ys by (simp add: Cons_nth_drop_Suc [symmetric] nth_append)
          then have "traced eng w a (concat (map cs (drop i (arr (snd y))))) (fst y) (snd y)"
            using a(1) Thrown y
              traced_Thrown_more [of eng w a "cs (arr w ! i)" x w1
                "concat (map cs (drop (Suc i) (arr w1)))"]
            by simp
          then show ?thesis
            using a(2) y by auto
        next
          case Returned
          then have f: "f arr body (Suc i) w1 = Some y"
            using unfolded eq True b by simp
          obtain b where e2:
            "traced eng w1 b (concat (map cs (drop (Suc i) (arr (snd y))))) (fst y) (snd y)"
            "appended w1 b (snd y)"
            using IH [OF f] by blast
          have zs: "arr (snd y) = arr w1 @ sel b"
            using e2(2) by (rule arr)
          have "drop i (arr (snd y)) = arr w ! i # drop (Suc i) (arr (snd y))"
            using True ys zs by (simp add: Cons_nth_drop_Suc [symmetric] nth_append)
          then have "traced eng w (a @ b) (concat (map cs (drop i (arr (snd y))))) (fst y) (snd y)"
            using a(1) e2(1) Returned
              traced_seq [of eng w a "cs (arr w ! i)" w1 b
                "concat (map cs (drop (Suc i) (arr (snd y))))" "fst y" "snd y"]
            by simp
          moreover have "appended w (a @ b) (snd y)"
            using a(2) e2(2) by (rule appended_trans)
          ultimately show ?thesis
            by blast
        qed
      qed
    qed
  qed
  then show ?thesis by simp
qed

text \<open>A loop whose body leaves the array alone ends.\<close>

lemma for_of_total:
  assumes keep: "\<And>x v st v'. body x v = (st, v') \<Longrightarrow> arr v' = arr v"
  shows "\<exists>r. for_of arr body i w = Some r"
proof (induction "length (arr w) - i" arbitrary: i w)
  case 0
  then show ?case
    by (subst for_of.simps) simp
next
  case (Suc n)
  then have lt: "i < length (arr w)"
    by simp
  obtain s1 w1 where b: "body (arr w ! i) w = (s1, w1)"
    by (cases "body (arr w ! i) w")
  have k: "arr w1 = arr w"
    using b by (rule keep)
  show ?case
  proof (cases s1)
    case Returned
    have "n = length (arr w1) - Suc i"
      using Suc.hyps(2) k by simp
    then obtain r where "for_of arr body (Suc i) w1 = Some r"
      using Suc.hyps(1) by blast
    then show ?thesis
      using lt b Returned by (subst for_of.simps) simp
  next
    case (Thrown x)
    then show ?thesis
      using lt b by (subst for_of.simps) simp
  qed
qed

section \<open>A flush while the listeners are silent\<close>

lemma silent_not_asked: "silent eng \<Longrightarrow> \<not> asked eng r"
  by (simp add: silent_def asked_def)

lemma silent_traced_Nil: "silent eng \<Longrightarrow> traced eng w rs cs st w' \<Longrightarrow> rs = []"
  using silent_not_asked [of eng] by (cases rs) (auto simp: traced_def)

lemma unchanged_but_calls:
  assumes "appended w [] w'" and "traced eng w [] cs st w'"
  shows "w' = w\<lparr>calls := calls w'\<rparr>"
  using assms by (intro state.equality) (simp_all add: appended_def traced_def)

lemma traced_Thrown_mem: "traced eng w rs cs (Thrown x) w' \<Longrightarrow> x \<in> set cs"
  by (auto simp: traced_def stopped_def)

lemma silent_loop:
  assumes sil: "silent eng"
    and body: "\<And>x v st v'. body x v = (st, v')
      \<Longrightarrow> \<exists>rs. traced eng v rs (cs x) st v' \<and> appended v rs v'"
    and arr: "\<And>v rs v'. appended v rs v' \<Longrightarrow> arr v' = arr v @ sel rs"
    and sel: "sel [] = []"
  shows "\<exists>st w'. for_of arr body 0 w = Some (st, w')
     \<and> traced eng w [] (concat (map cs (arr w))) st w' \<and> w' = w\<lparr>calls := calls w'\<rparr>"
proof -
  have keep: "arr v' = arr v" if bx: "body x v = (st, v')" for x v st v'
  proof -
    obtain rs where rs: "traced eng v rs (cs x) st v'" "appended v rs v'"
      using body [OF bx] by blast
    then have "rs = []"
      using sil silent_traced_Nil by blast
    then show ?thesis
      using arr [OF rs(2)] sel by simp
  qed
  obtain st w' where run: "for_of arr body 0 w = Some (st, w')"
    using for_of_total [of body arr 0 w] keep by fastforce
  obtain rs where rs: "traced eng w rs (concat (map cs (drop 0 (arr w')))) st w'"
    "appended w rs w'"
    using for_of_traced [of body eng cs arr sel 0 w st w'] body arr run by blast
  have nil: "rs = []"
    using sil rs(1) silent_traced_Nil by blast
  then have "arr w' = arr w"
    using arr [OF rs(2)] sel by simp
  then have "traced eng w [] (concat (map cs (arr w))) st w'"
    using rs(1) nil by simp
  moreover have "w' = w\<lparr>calls := calls w'\<rparr>"
    using rs nil unchanged_but_calls by blast
  ultimately show ?thesis
    using run by blast
qed

lemma arr_appended:
  "appended v rs v' \<Longrightarrow> layerIdsToRemove v' = layerIdsToRemove v @ layers_of rs"
  "appended v rs v' \<Longrightarrow> sourceIdsToRemove v' = sourceIdsToRemove v @ sources_of rs"
  "appended v rs v' \<Longrightarrow> markersToRemove v' = markersToRemove v @ markers_of rs"
  "appended v rs v' \<Longrightarrow> popupsToRemove v' = popupsToRemove v @ popups_of rs"
  "appended v rs v' \<Longrightarrow> imageIdsToRemove v' = imageIdsToRemove v @ images_of rs"
  by (simp_all add: appended_def)

lemma concat_singletons: "concat (map (\<lambda>x. [f x]) xs) = map f xs"
  by (induction xs) simp_all

lemma silent_layers:
  assumes "silent eng"
  shows "\<exists>st w'. for_of layerIdsToRemove (\<lambda>layerId. invoke_all eng (layer_calls layerId)) 0 w
       = Some (st, w')
     \<and> traced eng w [] (concat (map layer_calls (layerIdsToRemove w))) st w'
     \<and> w' = w\<lparr>calls := calls w'\<rparr>"
  using assms
  by (rule silent_loop [where sel = layers_of]) (simp_all add: invoke_all_traced arr_appended)

lemma silent_sources:
  assumes "silent eng"
  shows "\<exists>st w'. for_of sourceIdsToRemove (\<lambda>sourceId. invoke eng (MapRemoveSource sourceId)) 0 w
       = Some (st, w')
     \<and> traced eng w [] (map MapRemoveSource (sourceIdsToRemove w)) st w'
     \<and> w' = w\<lparr>calls := calls w'\<rparr>"
  using silent_loop [where sel = sources_of and cs = "\<lambda>x. [MapRemoveSource x]"
      and arr = sourceIdsToRemove and eng = eng and w = w
      and body = "\<lambda>sourceId. invoke eng (MapRemoveSource sourceId)"] assms
  by (simp add: invoke_traced arr_appended concat_singletons)

lemma silent_markers:
  assumes "silent eng"
  shows "\<exists>st w'. for_of markersToRemove (\<lambda>m. invoke eng (MarkerRemove m)) 0 w = Some (st, w')
     \<and> traced eng w [] (map MarkerRemove (markersToRemove w)) st w'
     \<and> w' = w\<lparr>calls := calls w'\<rparr>"
  using silent_loop [where sel = markers_of and cs = "\<lambda>x. [MarkerRemove x]"
      and arr = markersToRemove and eng = eng and w = w
      and body = "\<lambda>m. invoke eng (MarkerRemove m)"] assms
  by (simp add: invoke_traced arr_appended concat_singletons)

lemma silent_popups:
  assumes "silent eng"
  shows "\<exists>st w'. for_of popupsToRemove (\<lambda>p. invoke eng (PopupRemove p)) 0 w = Some (st, w')
     \<and> traced eng w [] (map PopupRemove (popupsToRemove w)) st w'
     \<and> w' = w\<lparr>calls := calls w'\<rparr>"
  using silent_loop [where sel = popups_of and cs = "\<lambda>x. [PopupRemove x]"
      and arr = popupsToRemove and eng = eng and w = w
      and body = "\<lambda>p. invoke eng (PopupRemove p)"] assms
  by (simp add: invoke_traced arr_appended concat_singletons)

lemma silent_images:
  assumes "silent eng"
  shows "\<exists>st w'. for_of imageIdsToRemove (\<lambda>imageId. invoke eng (MapRemoveImage imageId)) 0 w
       = Some (st, w')
     \<and> traced eng w [] (map MapRemoveImage (imageIdsToRemove w)) st w'
     \<and> w' = w\<lparr>calls := calls w'\<rparr>"
  using silent_loop [where sel = images_of and cs = "\<lambda>x. [MapRemoveImage x]"
      and arr = imageIdsToRemove and eng = eng and w = w
      and body = "\<lambda>imageId. invoke eng (MapRemoveImage imageId)"] assms
  by (simp add: invoke_traced arr_appended concat_singletons)

lemma and_then_simps [simp]:
  "and_then None f = None"
  "and_then (Some (Returned, w)) f = f w"
  "and_then (Some (Thrown x, w)) f = Some (Thrown x, w)"
  by (simp_all add: and_then_def)

lemma reached_simps [simp]:
  "reached Returned k = k" "reached (Thrown x) k = stage x"
  by (simp_all add: reached_def)

lemma after_start: "after eng w [] 0 (Some (Returned, w))"
  by (simp add: after_def traced_Nil drained_def)

lemma after_step:
  assumes prev: "after eng w cs k r"
    and phase: "\<And>c. \<exists>s v'. f ((drained k w)\<lparr>calls := c\<rparr>) = Some (s, v')
        \<and> traced eng ((drained k w)\<lparr>calls := c\<rparr>) [] A s v'
        \<and> v' = (drained (if s = Returned then Suc k else k) w)\<lparr>calls := calls v'\<rparr>"
    and stage: "\<forall>x\<in>set A. stage x = k"
  shows "after eng w (cs @ A) (Suc k) (and_then r f)"
proof -
  from prev obtain st w1 where r: "r = Some (st, w1)" and t: "traced eng w [] cs st w1"
    and w1: "w1 = (drained (reached st k) w)\<lparr>calls := calls w1\<rparr>"
    unfolding after_def by blast
  show ?thesis
  proof (cases st)
    case (Thrown x)
    have "traced eng w [] (cs @ A) (Thrown x) w1"
      using t unfolding Thrown by (rule traced_Thrown_more)
    then show ?thesis
      unfolding after_def using r w1 Thrown by simp
  next
    case Returned
    then have v: "w1 = (drained k w)\<lparr>calls := calls w1\<rparr>"
      using w1 by simp
    obtain s v' where p: "f w1 = Some (s, v')" "traced eng w1 [] A s v'"
      "v' = (drained (if s = Returned then Suc k else k) w)\<lparr>calls := calls v'\<rparr>"
      using phase [of "calls w1"] v by auto
    have tr: "traced eng w ([] @ []) (cs @ A) s v'"
      using t p(2) unfolding Returned by (rule traced_seq)
    have "reached s (Suc k) = (if s = Returned then Suc k else k)"
    proof (cases s)
      case Returned
      then show ?thesis by simp
    next
      case (Thrown x)
      then have "x \<in> set A"
        using p(2) traced_Thrown_mem by blast
      then show ?thesis
        using stage Thrown by simp
    qed
    then have "v' = (drained (reached s (Suc k)) w)\<lparr>calls := calls v'\<rparr>"
      using p(3) by simp
    then show ?thesis
      unfolding after_def using r Returned p(1) tr by simp
  qed
qed

lemma drained_calls_fields [simp]:
  "layerIdsToRemove ((drained k w)\<lparr>calls := c\<rparr>) = (if 0 < k then [] else layerIdsToRemove w)"
  "sourceIdsToRemove ((drained k w)\<lparr>calls := c\<rparr>) = (if 1 < k then [] else sourceIdsToRemove w)"
  "markersToRemove ((drained k w)\<lparr>calls := c\<rparr>) = (if 2 < k then [] else markersToRemove w)"
  "popupsToRemove ((drained k w)\<lparr>calls := c\<rparr>) = (if 3 < k then [] else popupsToRemove w)"
  "imageIdsToRemove ((drained k w)\<lparr>calls := c\<rparr>) = (if 4 < k then [] else imageIdsToRemove w)"
  by (simp_all add: drained_def)

lemma traced_final:
  "calls u = calls v \<Longrightarrow> reentered u = reentered v \<Longrightarrow> mapInstance u = mapInstance v
     \<Longrightarrow> traced eng w rs cs st v \<Longrightarrow> traced eng w rs cs st u"
  by (simp add: traced_def)

lemma drain_phase:
  fixes reset :: "state \<Rightarrow> state"
  assumes loop: "\<exists>s v1. loop = Some (s, v1) \<and> traced eng v [] A s v1 \<and> v1 = v\<lparr>calls := calls v1\<rparr>"
    and v: "v = (drained k w)\<lparr>calls := c\<rparr>"
    and reset: "\<And>c'. reset ((drained k w)\<lparr>calls := c'\<rparr>) = (drained (Suc k) w)\<lparr>calls := c'\<rparr>"
  shows "\<exists>s v'. and_then loop (\<lambda>u. Some (Returned, reset u)) = Some (s, v')
        \<and> traced eng v [] A s v'
        \<and> v' = (drained (if s = Returned then Suc k else k) w)\<lparr>calls := calls v'\<rparr>"
proof -
  obtain s v1 where l: "loop = Some (s, v1)" "traced eng v [] A s v1"
    "v1 = v\<lparr>calls := calls v1\<rparr>"
    using loop by blast
  have v1: "v1 = (drained k w)\<lparr>calls := calls v1\<rparr>"
    by (subst l(3)) (simp add: v)
  show ?thesis
  proof (cases s)
    case Returned
    let ?u = "(drained (Suc k) w)\<lparr>calls := calls v1\<rparr>"
    have u: "reset v1 = ?u"
      by (subst v1) (rule reset)
    have "and_then loop (\<lambda>u. Some (Returned, reset u)) = Some (Returned, ?u)"
      using l(1) Returned u by simp
    moreover have "traced eng v [] A Returned ?u"
    proof (rule traced_final [where v = v1])
      show "traced eng v [] A Returned v1"
        using l(2) Returned by simp
      show "calls ?u = calls v1"
        by simp
      have "reentered v1 = reentered w" "mapInstance v1 = mapInstance w"
        by (subst v1, simp add: drained_def)+
      then show "reentered ?u = reentered v1" "mapInstance ?u = mapInstance v1"
        by (simp_all add: drained_def)
    qed
    moreover have "?u = (drained (Suc k) w)\<lparr>calls := calls ?u\<rparr>"
      by simp
    ultimately show ?thesis
      using Returned by simp
  next
    case (Thrown x)
    have "and_then loop (\<lambda>u. Some (Returned, reset u)) = Some (Thrown x, v1)"
      using l(1) Thrown by simp
    then show ?thesis
      using l(2) v1 Thrown by simp
  qed
qed

lemma removeLayers_phase:
  assumes "silent eng"
  shows "\<exists>s v'. removeLayers eng ((drained 0 w)\<lparr>calls := c\<rparr>) = Some (s, v')
        \<and> traced eng ((drained 0 w)\<lparr>calls := c\<rparr>) []
            (concat (map layer_calls (layerIdsToRemove w))) s v'
        \<and> v' = (drained (if s = Returned then Suc 0 else 0) w)\<lparr>calls := calls v'\<rparr>"
  unfolding removeLayers_def
proof (rule drain_phase [where c = c])
  show "\<exists>s v1. for_of layerIdsToRemove (\<lambda>layerId. invoke_all eng (layer_calls layerId)) 0
          ((drained 0 w)\<lparr>calls := c\<rparr>) = Some (s, v1)
      \<and> traced eng ((drained 0 w)\<lparr>calls := c\<rparr>) []
          (concat (map layer_calls (layerIdsToRemove w))) s v1
      \<and> v1 = (drained 0 w)\<lparr>calls := c\<rparr>\<lparr>calls := calls v1\<rparr>"
    using silent_layers [OF assms, of "(drained 0 w)\<lparr>calls := c\<rparr>"] by simp
qed (simp_all add: drained_def)

lemma removeSources_phase:
  assumes "silent eng"
  shows "\<exists>s v'. removeSources eng ((drained (Suc 0) w)\<lparr>calls := c\<rparr>) = Some (s, v')
        \<and> traced eng ((drained (Suc 0) w)\<lparr>calls := c\<rparr>) []
            (map MapRemoveSource (sourceIdsToRemove w)) s v'
        \<and> v' = (drained (if s = Returned then Suc (Suc 0) else Suc 0) w)\<lparr>calls := calls v'\<rparr>"
  unfolding removeSources_def
proof (rule drain_phase [where c = c])
  show "\<exists>s v1. for_of sourceIdsToRemove (\<lambda>sourceId. invoke eng (MapRemoveSource sourceId)) 0
          ((drained (Suc 0) w)\<lparr>calls := c\<rparr>) = Some (s, v1)
      \<and> traced eng ((drained (Suc 0) w)\<lparr>calls := c\<rparr>) []
          (map MapRemoveSource (sourceIdsToRemove w)) s v1
      \<and> v1 = (drained (Suc 0) w)\<lparr>calls := c\<rparr>\<lparr>calls := calls v1\<rparr>"
    using silent_sources [OF assms, of "(drained (Suc 0) w)\<lparr>calls := c\<rparr>"] by simp
qed (simp_all add: drained_def)

lemma removeMarkers_phase:
  assumes "silent eng"
  shows "\<exists>s v'. removeMarkers eng ((drained (Suc (Suc 0)) w)\<lparr>calls := c\<rparr>) = Some (s, v')
        \<and> traced eng ((drained (Suc (Suc 0)) w)\<lparr>calls := c\<rparr>) []
            (map MarkerRemove (markersToRemove w)) s v'
        \<and> v' = (drained (if s = Returned then Suc (Suc (Suc 0)) else Suc (Suc 0)) w)
            \<lparr>calls := calls v'\<rparr>"
  unfolding removeMarkers_def
proof (rule drain_phase [where c = c])
  show "\<exists>s v1. for_of markersToRemove (\<lambda>m. invoke eng (MarkerRemove m)) 0
          ((drained (Suc (Suc 0)) w)\<lparr>calls := c\<rparr>) = Some (s, v1)
      \<and> traced eng ((drained (Suc (Suc 0)) w)\<lparr>calls := c\<rparr>) []
          (map MarkerRemove (markersToRemove w)) s v1
      \<and> v1 = (drained (Suc (Suc 0)) w)\<lparr>calls := c\<rparr>\<lparr>calls := calls v1\<rparr>"
    using silent_markers [OF assms, of "(drained (Suc (Suc 0)) w)\<lparr>calls := c\<rparr>"] by simp
qed (simp_all add: drained_def)

lemma removePopups_phase:
  assumes "silent eng"
  shows "\<exists>s v'. removePopups eng ((drained (Suc (Suc (Suc 0))) w)\<lparr>calls := c\<rparr>) = Some (s, v')
        \<and> traced eng ((drained (Suc (Suc (Suc 0))) w)\<lparr>calls := c\<rparr>) []
            (map PopupRemove (popupsToRemove w)) s v'
        \<and> v' = (drained (if s = Returned then Suc (Suc (Suc (Suc 0))) else Suc (Suc (Suc 0))) w)
            \<lparr>calls := calls v'\<rparr>"
  unfolding removePopups_def
proof (rule drain_phase [where c = c])
  show "\<exists>s v1. for_of popupsToRemove (\<lambda>p. invoke eng (PopupRemove p)) 0
          ((drained (Suc (Suc (Suc 0))) w)\<lparr>calls := c\<rparr>) = Some (s, v1)
      \<and> traced eng ((drained (Suc (Suc (Suc 0))) w)\<lparr>calls := c\<rparr>) []
          (map PopupRemove (popupsToRemove w)) s v1
      \<and> v1 = (drained (Suc (Suc (Suc 0))) w)\<lparr>calls := c\<rparr>\<lparr>calls := calls v1\<rparr>"
    using silent_popups [OF assms, of "(drained (Suc (Suc (Suc 0))) w)\<lparr>calls := c\<rparr>"] by simp
qed (simp_all add: drained_def)

lemma removeImages_phase:
  assumes "silent eng"
  shows "\<exists>s v'. removeImages eng ((drained (Suc (Suc (Suc (Suc 0)))) w)\<lparr>calls := c\<rparr>)
          = Some (s, v')
        \<and> traced eng ((drained (Suc (Suc (Suc (Suc 0)))) w)\<lparr>calls := c\<rparr>) []
            (map MapRemoveImage (imageIdsToRemove w)) s v'
        \<and> v' = (drained (if s = Returned then Suc (Suc (Suc (Suc (Suc 0))))
                   else Suc (Suc (Suc (Suc 0)))) w)\<lparr>calls := calls v'\<rparr>"
  unfolding removeImages_def
proof (rule drain_phase [where c = c])
  show "\<exists>s v1. for_of imageIdsToRemove (\<lambda>imageId. invoke eng (MapRemoveImage imageId)) 0
          ((drained (Suc (Suc (Suc (Suc 0)))) w)\<lparr>calls := c\<rparr>) = Some (s, v1)
      \<and> traced eng ((drained (Suc (Suc (Suc (Suc 0)))) w)\<lparr>calls := c\<rparr>) []
          (map MapRemoveImage (imageIdsToRemove w)) s v1
      \<and> v1 = (drained (Suc (Suc (Suc (Suc 0)))) w)\<lparr>calls := c\<rparr>\<lparr>calls := calls v1\<rparr>"
    using silent_images [OF assms, of "(drained (Suc (Suc (Suc (Suc 0)))) w)\<lparr>calls := c\<rparr>"]
    by simp
qed (simp_all add: drained_def)

lemma stage_layer_calls: "\<forall>x\<in>set (concat (map layer_calls ls)). stage x = 0"
  by (auto simp: layer_calls_def)

lemma applyChanges_silent:
  assumes "silent eng"
  shows "after eng w (pending_calls w) 5 (applyChanges eng w)"
proof -
  let ?A1 = "concat (map layer_calls (layerIdsToRemove w))"
  let ?A2 = "map MapRemoveSource (sourceIdsToRemove w)"
  let ?A3 = "map MarkerRemove (markersToRemove w)"
  let ?A4 = "map PopupRemove (popupsToRemove w)"
  let ?A5 = "map MapRemoveImage (imageIdsToRemove w)"
  have 1: "after eng w ([] @ ?A1) (Suc 0) (and_then (Some (Returned, w)) (removeLayers eng))"
    using after_start removeLayers_phase [OF assms] stage_layer_calls by (rule after_step)
  have 2: "after eng w (([] @ ?A1) @ ?A2) (Suc (Suc 0))
      (and_then (and_then (Some (Returned, w)) (removeLayers eng)) (removeSources eng))"
    using 1 removeSources_phase [OF assms] by (rule after_step) auto
  have 3: "after eng w ((([] @ ?A1) @ ?A2) @ ?A3) (Suc (Suc (Suc 0)))
      (and_then (and_then (and_then (Some (Returned, w)) (removeLayers eng))
         (removeSources eng)) (removeMarkers eng))"
    using 2 removeMarkers_phase [OF assms] by (rule after_step) auto
  have 4: "after eng w (((([] @ ?A1) @ ?A2) @ ?A3) @ ?A4) (Suc (Suc (Suc (Suc 0))))
      (and_then (and_then (and_then (and_then (Some (Returned, w)) (removeLayers eng))
         (removeSources eng)) (removeMarkers eng)) (removePopups eng))"
    using 3 removePopups_phase [OF assms] by (rule after_step) auto
  have 5: "after eng w ((((([] @ ?A1) @ ?A2) @ ?A3) @ ?A4) @ ?A5) (Suc (Suc (Suc (Suc (Suc 0)))))
      (and_then (and_then (and_then (and_then (and_then (Some (Returned, w)) (removeLayers eng))
         (removeSources eng)) (removeMarkers eng)) (removePopups eng)) (removeImages eng))"
    using 4 removeImages_phase [OF assms] by (rule after_step) auto
  have "5 = Suc (Suc (Suc (Suc (Suc 0))))"
    by simp
  then show ?thesis
    using 5 by (simp only: applyChanges_def pending_calls_def flush_calls_def and_then_simps
      append_Nil append_assoc)
qed

section \<open>A flush of nothing\<close>

lemma same_layers: "layerIdsToRemove w = [] \<Longrightarrow> w\<lparr>layerIdsToRemove := []\<rparr> = w"
  by (rule state.equality) simp_all

lemma same_sources: "sourceIdsToRemove w = [] \<Longrightarrow> w\<lparr>sourceIdsToRemove := []\<rparr> = w"
  by (rule state.equality) simp_all

lemma same_markers: "markersToRemove w = [] \<Longrightarrow> w\<lparr>markersToRemove := []\<rparr> = w"
  by (rule state.equality) simp_all

lemma same_popups: "popupsToRemove w = [] \<Longrightarrow> w\<lparr>popupsToRemove := []\<rparr> = w"
  by (rule state.equality) simp_all

lemma same_images: "imageIdsToRemove w = [] \<Longrightarrow> w\<lparr>imageIdsToRemove := []\<rparr> = w"
  by (rule state.equality) simp_all

lemma for_of_empty: "arr w = [] \<Longrightarrow> for_of arr body 0 w = Some (Returned, w)"
  by (subst for_of.simps) simp

lemma applyChanges_empty:
  assumes "pending_empty w"
  shows "applyChanges eng w = Some (Returned, w)"
proof -
  have "removeLayers eng w = Some (Returned, w)" "removeSources eng w = Some (Returned, w)"
    "removeMarkers eng w = Some (Returned, w)" "removePopups eng w = Some (Returned, w)"
    "removeImages eng w = Some (Returned, w)"
    using assms
    by (simp_all add: pending_empty_def removeLayers_def removeSources_def removeMarkers_def
        removePopups_def removeImages_def for_of_empty same_layers same_sources same_markers
        same_popups same_images)
  then show ?thesis
    by (simp add: applyChanges_def)
qed

lemma after_Returned:
  assumes "after eng w cs k (Some (Returned, w'))"
  shows "calls w' = calls w @ cs" and "w' = (drained k w)\<lparr>calls := calls w'\<rparr>"
  using assms by (auto simp: after_def traced_def stopped_def)

lemma drained_5_empty: "pending_empty ((drained 5 w)\<lparr>calls := c\<rparr>)"
  by (simp add: pending_empty_def)

lemma unfailing_Returned:
  assumes "unfailing eng" and "mapInstance w" and "traced eng w rs cs st w'"
  shows "st = Returned"
proof (cases st)
  case (Thrown x)
  have "\<not> may_throw eng x"
    using assms(1) by (simp add: unfailing_def may_throw_def)
  then show ?thesis
    using assms(2,3) Thrown by (auto simp: traced_def stopped_def)
qed simp

lemma pending_calls_fold_perform:
  assumes "pending_empty w"
  shows "pending_calls (fold perform rs w)
     = flush_calls (layers_of rs) (sources_of rs) (markers_of rs) (popups_of rs) (images_of rs)"
  using fold_perform_appended [of w rs] assms
  by (simp add: pending_calls_def appended_def pending_empty_def)

section \<open>The calls of a flush, one by one, while the listeners are silent\<close>

lemma invoke_silent:
  assumes "silent eng" and "mapInstance v"
  shows "invoke eng c v
     = (if throws (eng v c) then Thrown c else Returned, v\<lparr>calls := calls v @ [c]\<rparr>)"
proof -
  have "requests (eng v c) = []"
    using assms(1) by (simp add: silent_def)
  then show ?thesis
    using assms(2) by (simp add: invoke_def Let_def)
qed

lemma run_calls_append:
  "run_calls eng w q (a @ b)
     = (case run_calls eng w q a of
          (Returned, p) \<Rightarrow> run_calls eng w p b
        | (Thrown x, p) \<Rightarrow> (Thrown x, p))"
  by (induction a arbitrary: q) simp_all

lemma run_calls_Thrown_mem: "run_calls eng w q a = (Thrown x, p) \<Longrightarrow> x \<in> set a"
  by (induction a arbitrary: q) (auto split: if_splits)

lemma settle_stage:
  assumes "\<forall>x\<in>set a. stage x = k"
  shows "(case run_calls eng w q a of
            (Returned, p) \<Rightarrow> (Returned, (drained (Suc k) w)\<lparr>calls := calls w @ p\<rparr>)
          | (Thrown x, p) \<Rightarrow> (Thrown x, (drained k w)\<lparr>calls := calls w @ p\<rparr>))
     = settle w (Suc k) (run_calls eng w q a)"
proof (cases "run_calls eng w q a")
  case (Pair st p)
  show ?thesis
  proof (cases st)
    case Returned
    then show ?thesis
      using Pair by (simp add: settle_def)
  next
    case (Thrown x)
    then have "stage x = k"
      using Pair assms run_calls_Thrown_mem by blast
    then show ?thesis
      using Pair Thrown by (simp add: settle_def)
  qed
qed

lemma invoke_all_run:
  assumes "silent eng" and "mapInstance w" and "\<forall>x\<in>set a. stage x = k"
  shows "invoke_all eng a ((drained k w)\<lparr>calls := calls w @ q\<rparr>)
     = (case run_calls eng w q a of (st, p) \<Rightarrow> (st, (drained k w)\<lparr>calls := calls w @ p\<rparr>))"
  using assms(3)
proof (induction a arbitrary: q)
  case Nil
  show ?case by simp
next
  case (Cons x a)
  let ?v = "(drained k w)\<lparr>calls := calls w @ q\<rparr>"
  have m: "mapInstance ?v"
    using assms(2) by (simp add: drained_def)
  have at: "at_call w q x = ?v"
    using Cons.prems by (simp add: at_call_def)
  have i: "invoke eng x ?v
      = (if throws (eng ?v x) then Thrown x else Returned,
         (drained k w)\<lparr>calls := calls w @ q @ [x]\<rparr>)"
    using invoke_silent [OF assms(1) m, of x] by simp
  show ?case
  proof (cases "throws (eng ?v x)")
    case True
    then show ?thesis
      using i at by simp
  next
    case False
    have "invoke_all eng a ((drained k w)\<lparr>calls := calls w @ q @ [x]\<rparr>)
        = (case run_calls eng w (q @ [x]) a of
             (st, p) \<Rightarrow> (st, (drained k w)\<lparr>calls := calls w @ p\<rparr>))"
      using Cons.IH [of "q @ [x]"] Cons.prems by simp
    then show ?thesis
      using i at False by simp
  qed
qed

lemma invoke_all_append:
  "invoke_all eng (a @ b) v
     = (case invoke_all eng a v of
          (Returned, v') \<Rightarrow> invoke_all eng b v'
        | (Thrown x, v') \<Rightarrow> (Thrown x, v'))"
  by (induction a arbitrary: v) (simp_all split: prod.splits completion.splits)

lemma invoke_all_single: "invoke_all eng [c] = invoke eng c"
  by (rule ext) (simp split: prod.splits completion.splits)

lemma silent_for_of:
  assumes sil: "silent eng"
    and arr: "\<And>v rs v'. appended v rs v' \<Longrightarrow> arr v' = arr v @ sel rs"
    and sel: "sel [] = []"
  shows "for_of arr (\<lambda>x. invoke_all eng (cs x)) i v
     = Some (invoke_all eng (concat (map cs (drop i (arr v)))) v)"
proof (induction "length (arr v) - i" arbitrary: i v)
  case 0
  then show ?case
    by (subst for_of.simps) simp
next
  case (Suc n)
  then have lt: "i < length (arr v)"
    by simp
  obtain s1 v1 where b: "invoke_all eng (cs (arr v ! i)) v = (s1, v1)"
    by (cases "invoke_all eng (cs (arr v ! i)) v")
  obtain rs where rs: "traced eng v rs (cs (arr v ! i)) s1 v1" "appended v rs v1"
    using invoke_all_traced [OF b] by blast
  then have "rs = []"
    using sil silent_traced_Nil by blast
  then have k: "arr v1 = arr v"
    using arr [OF rs(2)] sel by simp
  have d: "drop i (arr v) = arr v ! i # drop (Suc i) (arr v)"
    using lt by (simp add: Cons_nth_drop_Suc)
  show ?case
  proof (cases s1)
    case Returned
    have "n = length (arr v1) - Suc i"
      using Suc.hyps(2) k by simp
    then have "for_of arr (\<lambda>x. invoke_all eng (cs x)) (Suc i) v1
        = Some (invoke_all eng (concat (map cs (drop (Suc i) (arr v1)))) v1)"
      by (rule Suc.hyps(1))
    then show ?thesis
      using lt b Returned k d by (subst for_of.simps) (simp add: invoke_all_append)
  next
    case (Thrown x)
    then show ?thesis
      using lt b d by (subst for_of.simps) (simp add: invoke_all_append)
  qed
qed

lemma exact_phase:
  fixes reset :: "state \<Rightarrow> state"
  assumes sil: "silent eng" and m: "mapInstance w"
    and arr: "\<And>v rs v'. appended v rs v' \<Longrightarrow> arr v' = arr v @ sel rs"
    and sel: "sel [] = []"
    and xs: "\<And>c. arr ((drained k w)\<lparr>calls := c\<rparr>) = xs"
    and stage: "\<forall>x\<in>set (concat (map cs xs)). stage x = k"
    and reset: "\<And>c. reset ((drained k w)\<lparr>calls := c\<rparr>) = (drained (Suc k) w)\<lparr>calls := c\<rparr>"
  shows "and_then (for_of arr (\<lambda>x. invoke_all eng (cs x)) 0
        ((drained k w)\<lparr>calls := calls w @ q\<rparr>)) (\<lambda>u. Some (Returned, reset u))
     = Some (settle w (Suc k) (run_calls eng w q (concat (map cs xs))))"
proof -
  let ?v = "(drained k w)\<lparr>calls := calls w @ q\<rparr>"
  let ?A = "concat (map cs xs)"
  have "for_of arr (\<lambda>x. invoke_all eng (cs x)) 0 ?v = Some (invoke_all eng ?A ?v)"
    using silent_for_of [where eng = eng and arr = arr and sel = sel and cs = cs and i = 0
        and v = ?v] sil arr sel xs
    by simp
  moreover have "invoke_all eng ?A ?v
      = (case run_calls eng w q ?A of (st, p) \<Rightarrow> (st, (drained k w)\<lparr>calls := calls w @ p\<rparr>))"
    using sil m stage by (rule invoke_all_run)
  ultimately have "and_then (for_of arr (\<lambda>x. invoke_all eng (cs x)) 0 ?v)
        (\<lambda>u. Some (Returned, reset u))
      = Some (case run_calls eng w q ?A of
            (Returned, p) \<Rightarrow> (Returned, (drained (Suc k) w)\<lparr>calls := calls w @ p\<rparr>)
          | (Thrown x, p) \<Rightarrow> (Thrown x, (drained k w)\<lparr>calls := calls w @ p\<rparr>))"
    by (simp add: reset split: prod.splits completion.splits)
  then show ?thesis
    using settle_stage [OF stage] by simp
qed

lemma exact_layers:
  assumes "silent eng" and "mapInstance w"
  shows "removeLayers eng ((drained 0 w)\<lparr>calls := calls w @ q\<rparr>)
     = Some (settle w (Suc 0)
         (run_calls eng w q (concat (map layer_calls (layerIdsToRemove w)))))"
  unfolding removeLayers_def using assms
  by (rule exact_phase [where sel = layers_of])
    (simp_all add: arr_appended stage_layer_calls drained_def)

lemma exact_sources:
  assumes "silent eng" and "mapInstance w"
  shows "removeSources eng ((drained (Suc 0) w)\<lparr>calls := calls w @ q\<rparr>)
     = Some (settle w (Suc (Suc 0))
         (run_calls eng w q (map MapRemoveSource (sourceIdsToRemove w))))"
  using exact_phase [where sel = sources_of and cs = "\<lambda>x. [MapRemoveSource x]"
      and arr = sourceIdsToRemove and xs = "sourceIdsToRemove w" and k = "Suc 0" and w = w
      and eng = eng and q = q and reset = "\<lambda>u. u\<lparr>sourceIdsToRemove := []\<rparr>"] assms
  by (simp add: removeSources_def arr_appended concat_singletons drained_def
      invoke_all_single)

lemma exact_markers:
  assumes "silent eng" and "mapInstance w"
  shows "removeMarkers eng ((drained (Suc (Suc 0)) w)\<lparr>calls := calls w @ q\<rparr>)
     = Some (settle w (Suc (Suc (Suc 0)))
         (run_calls eng w q (map MarkerRemove (markersToRemove w))))"
  using exact_phase [where sel = markers_of and cs = "\<lambda>x. [MarkerRemove x]"
      and arr = markersToRemove and xs = "markersToRemove w" and k = "Suc (Suc 0)" and w = w
      and eng = eng and q = q and reset = "\<lambda>u. u\<lparr>markersToRemove := []\<rparr>"] assms
  by (simp add: removeMarkers_def arr_appended concat_singletons drained_def
      invoke_all_single)

lemma exact_popups:
  assumes "silent eng" and "mapInstance w"
  shows "removePopups eng ((drained (Suc (Suc (Suc 0))) w)\<lparr>calls := calls w @ q\<rparr>)
     = Some (settle w (Suc (Suc (Suc (Suc 0))))
         (run_calls eng w q (map PopupRemove (popupsToRemove w))))"
  using exact_phase [where sel = popups_of and cs = "\<lambda>x. [PopupRemove x]"
      and arr = popupsToRemove and xs = "popupsToRemove w" and k = "Suc (Suc (Suc 0))"
      and w = w and eng = eng and q = q and reset = "\<lambda>u. u\<lparr>popupsToRemove := []\<rparr>"] assms
  by (simp add: removePopups_def arr_appended concat_singletons drained_def
      invoke_all_single)

lemma exact_images:
  assumes "silent eng" and "mapInstance w"
  shows "removeImages eng ((drained (Suc (Suc (Suc (Suc 0)))) w)\<lparr>calls := calls w @ q\<rparr>)
     = Some (settle w (Suc (Suc (Suc (Suc (Suc 0)))))
         (run_calls eng w q (map MapRemoveImage (imageIdsToRemove w))))"
  using exact_phase [where sel = images_of and cs = "\<lambda>x. [MapRemoveImage x]"
      and arr = imageIdsToRemove and xs = "imageIdsToRemove w"
      and k = "Suc (Suc (Suc (Suc 0)))" and w = w and eng = eng and q = q
      and reset = "\<lambda>u. u\<lparr>imageIdsToRemove := []\<rparr>"] assms
  by (simp add: removeImages_def arr_appended concat_singletons drained_def
      invoke_all_single)

lemma exact_step:
  assumes r: "r = Some (settle w k (run_calls eng w [] cs))"
    and phase: "\<And>q. f ((drained k w)\<lparr>calls := calls w @ q\<rparr>)
        = Some (settle w (Suc k) (run_calls eng w q A))"
  shows "and_then r f = Some (settle w (Suc k) (run_calls eng w [] (cs @ A)))"
proof (cases "run_calls eng w [] cs")
  case (Pair st p)
  show ?thesis
  proof (cases st)
    case Returned
    then show ?thesis
      using Pair r phase [of p] by (simp add: settle_def run_calls_append)
  next
    case (Thrown x)
    then show ?thesis
      using Pair r by (simp add: settle_def run_calls_append)
  qed
qed

lemma applyChanges_exact:
  assumes "silent eng" and "mapInstance w"
  shows "applyChanges eng w = Some (settle w 5 (run_calls eng w [] (pending_calls w)))"
proof -
  let ?A1 = "concat (map layer_calls (layerIdsToRemove w))"
  let ?A2 = "map MapRemoveSource (sourceIdsToRemove w)"
  let ?A3 = "map MarkerRemove (markersToRemove w)"
  let ?A4 = "map PopupRemove (popupsToRemove w)"
  let ?A5 = "map MapRemoveImage (imageIdsToRemove w)"
  have 0: "Some (Returned, w) = Some (settle w 0 (run_calls eng w [] []))"
    by (simp add: settle_def drained_def)
  have 1: "and_then (Some (Returned, w)) (removeLayers eng)
      = Some (settle w (Suc 0) (run_calls eng w [] ([] @ ?A1)))"
    using 0 exact_layers [OF assms] by (rule exact_step)
  have 2: "and_then (and_then (Some (Returned, w)) (removeLayers eng)) (removeSources eng)
      = Some (settle w (Suc (Suc 0)) (run_calls eng w [] (([] @ ?A1) @ ?A2)))"
    using 1 exact_sources [OF assms] by (rule exact_step)
  have 3: "and_then (and_then (and_then (Some (Returned, w)) (removeLayers eng))
        (removeSources eng)) (removeMarkers eng)
      = Some (settle w (Suc (Suc (Suc 0))) (run_calls eng w [] ((([] @ ?A1) @ ?A2) @ ?A3)))"
    using 2 exact_markers [OF assms] by (rule exact_step)
  have 4: "and_then (and_then (and_then (and_then (Some (Returned, w)) (removeLayers eng))
        (removeSources eng)) (removeMarkers eng)) (removePopups eng)
      = Some (settle w (Suc (Suc (Suc (Suc 0))))
          (run_calls eng w [] (((([] @ ?A1) @ ?A2) @ ?A3) @ ?A4)))"
    using 3 exact_popups [OF assms] by (rule exact_step)
  have 5: "and_then (and_then (and_then (and_then (and_then (Some (Returned, w))
        (removeLayers eng)) (removeSources eng)) (removeMarkers eng)) (removePopups eng))
        (removeImages eng)
      = Some (settle w (Suc (Suc (Suc (Suc (Suc 0)))))
          (run_calls eng w [] ((((([] @ ?A1) @ ?A2) @ ?A3) @ ?A4) @ ?A5)))"
    using 4 exact_images [OF assms] by (rule exact_step)
  have "5 = Suc (Suc (Suc (Suc (Suc 0))))"
    by simp
  then show ?thesis
    using 5 by (simp only: applyChanges_def pending_calls_def flush_calls_def and_then_simps
      append_Nil append_assoc)
qed

lemma run_calls_Thrown:
  assumes "\<forall>i<length a. \<not> throws (eng (at_call w (q @ take i a) (a ! i)) (a ! i))"
    and "throws (eng (at_call w (q @ a) x) x)"
  shows "run_calls eng w q (a @ x # rest) = (Thrown x, q @ a @ [x])"
  using assms
proof (induction a arbitrary: q)
  case Nil
  then show ?case by simp
next
  case (Cons y a)
  have y: "\<not> throws (eng (at_call w q y) y)"
    using Cons.prems(1) by fastforce
  have "\<forall>i<length a. \<not> throws (eng (at_call w ((q @ [y]) @ take i a) (a ! i)) (a ! i))"
  proof (intro allI impI)
    fix i
    assume "i < length a"
    then show "\<not> throws (eng (at_call w ((q @ [y]) @ take i a) (a ! i)) (a ! i))"
      using Cons.prems(1) [rule_format, of "Suc i"] by simp
  qed
  then have "run_calls eng w (q @ [y]) (a @ x # rest) = (Thrown x, (q @ [y]) @ a @ [x])"
    using Cons.prems(2) by (intro Cons.IH) simp_all
  then show ?case
    using y by simp
qed

lemma run_calls_Returned:
  assumes "\<forall>i<length a. \<not> throws (eng (at_call w (q @ take i a) (a ! i)) (a ! i))"
  shows "run_calls eng w q a = (Returned, q @ a)"
  using assms
proof (induction a arbitrary: q)
  case Nil
  then show ?case by simp
next
  case (Cons y a)
  have y: "\<not> throws (eng (at_call w q y) y)"
    using Cons.prems(1) by fastforce
  have "\<forall>i<length a. \<not> throws (eng (at_call w ((q @ [y]) @ take i a) (a ! i)) (a ! i))"
  proof (intro allI impI)
    fix i
    assume "i < length a"
    then show "\<not> throws (eng (at_call w ((q @ [y]) @ take i a) (a ! i)) (a ! i))"
      using Cons.prems(1) [rule_format, of "Suc i"] by simp
  qed
  then have "run_calls eng w (q @ [y]) a = (Returned, (q @ [y]) @ a)"
    by (rule Cons.IH)
  then show ?case
    using y by simp
qed

lemma flush_throws_at:
  assumes "silent eng" and "mapInstance w" and "pending_calls w = q @ x # rest"
    and "\<forall>i<length q. \<not> throws (eng (at_call w (take i q) (q ! i)) (q ! i))"
    and "throws (eng (at_call w q x) x)"
  shows "applyChanges eng w = Some (Thrown x, at_call w (q @ [x]) x)"
proof -
  have "run_calls eng w [] (q @ x # rest) = (Thrown x, [] @ q @ [x])"
    using assms(4,5) by (intro run_calls_Thrown) simp_all
  then show ?thesis
    using applyChanges_exact [OF assms(1,2)] assms(3) by (simp add: settle_def at_call_def)
qed

lemma flush_returns:
  assumes "silent eng" and "mapInstance w"
    and "\<forall>i<length (pending_calls w).
        \<not> throws (eng (at_call w (take i (pending_calls w)) (pending_calls w ! i))
            (pending_calls w ! i))"
  shows "applyChanges eng w = Some (Returned, (drained 5 w)\<lparr>calls := calls w @ pending_calls w\<rparr>)"
proof -
  have "run_calls eng w [] (pending_calls w) = (Returned, [] @ pending_calls w)"
    using assms(3) by (intro run_calls_Returned) simp
  then show ?thesis
    using applyChanges_exact [OF assms(1,2)] by (simp add: settle_def)
qed

lemma emptied_before_drained: "emptied_before k ((drained k w)\<lparr>calls := c\<rparr>)"
  by (simp add: emptied_before_def)

lemma silent_flush:
  assumes "silent eng"
  obtains st w' where "applyChanges eng w = Some (st, w')"
    and "traced eng w [] (pending_calls w) st w'"
    and "w' = (drained (reached st 5) w)\<lparr>calls := calls w'\<rparr>"
  using applyChanges_silent [OF assms, of w] unfolding after_def by blast

lemma pending_calls_entry: "x \<in> set (pending_calls w) \<Longrightarrow> entry_pending x w"
  by (cases x) (auto simp: pending_calls_def flush_calls_def layer_calls_def)

lemma pending_calls_kept:
  "x \<in> set (pending_calls w) \<Longrightarrow> x \<in> set (pending_calls ((drained (stage x) w)\<lparr>calls := c\<rparr>))"
  by (cases x) (auto simp: pending_calls_def flush_calls_def layer_calls_def)

lemma entry_pending_flags:
  "entry_pending x (w\<lparr>subChanges := n, reported := r\<rparr>) = entry_pending x w"
  by (cases x) simp_all

lemma stocked_fields:
  "layerIdsToRemove stocked = [''l1'', ''l2'']" "sourceIdsToRemove stocked = [''s1'']"
  "markersToRemove stocked = [1]" "popupsToRemove stocked = []"
  "imageIdsToRemove stocked = [''i1'']" "mapInstance stocked" "calls stocked = []"
  by (simp_all add: stocked_def ready_def new_MapService_def removeLayer_def removeSource_def
      removeMarker_def removeImage_def)

lemma outcome_Some: "outcome r = Some st \<Longrightarrow> r = Some (st, snd (the r))"
  by (cases r) (auto simp: outcome_def)

lemma invoke_flags:
  assumes "invoke eng c w = (st, w')"
  shows "subscription_closed w' = subscription_closed w" and "subChanges w' = subChanges w"
    and "prefix (layerIdsToRemove w) (layerIdsToRemove w')"
    and "prefix (sourceIdsToRemove w) (sourceIdsToRemove w')"
    and "prefix (markersToRemove w) (markersToRemove w')"
    and "prefix (popupsToRemove w) (popupsToRemove w')"
    and "prefix (imageIdsToRemove w) (imageIdsToRemove w')"
  using invoke_traced [OF assms] by (auto simp: appended_def)

section \<open>A flush under any engine\<close>

lemma and_then_Some:
  assumes "and_then r f = Some y"
  obtains (thrown) x v where "r = Some (Thrown x, v)" and "y = (Thrown x, v)"
  | (returned) v where "r = Some (Returned, v)" and "f v = Some y"
  using assms by (auto simp: and_then_def split: option.splits prod.splits completion.splits)

lemma drain_traced:
  fixes reset :: "state \<Rightarrow> state"
  assumes body: "\<And>x v st v'. body x v = (st, v')
      \<Longrightarrow> \<exists>rs. traced eng v rs (cs x) st v' \<and> appended v rs v'"
    and arr: "\<And>v rs v'. appended v rs v' \<Longrightarrow> arr v' = arr v @ sel rs"
    and run: "and_then (for_of arr body 0 w) (\<lambda>u. Some (Returned, reset u)) = Some (st, w')"
  shows "\<exists>R u. traced eng w R (concat (map cs (arr w @ sel R))) st u \<and> appended w R u
     \<and> w' = (if st = Returned then reset u else u)"
  using run
proof (cases rule: and_then_Some)
  case (thrown x v)
  then obtain R where "traced eng w R (concat (map cs (drop 0 (arr v)))) (Thrown x) v"
    "appended w R v"
    using for_of_traced [of body eng cs arr sel 0 w "Thrown x" v] body arr by blast
  then show ?thesis
    using thrown arr [of w R v] by auto
next
  case (returned v)
  then obtain R where "traced eng w R (concat (map cs (drop 0 (arr v)))) Returned v"
    "appended w R v"
    using for_of_traced [of body eng cs arr sel 0 w Returned v] body arr by blast
  then show ?thesis
    using returned arr [of w R v] by auto
qed

lemma removeLayers_traced:
  assumes "removeLayers eng w = Some (st, w')"
  shows "\<exists>R u. traced eng w R (concat (map layer_calls (layerIdsToRemove w @ layers_of R))) st u
     \<and> appended w R u \<and> w' = (if st = Returned then u\<lparr>layerIdsToRemove := []\<rparr> else u)"
  using assms unfolding removeLayers_def
  by (rule drain_traced [rotated 2]) (simp_all add: invoke_all_traced arr_appended)

lemma removeSources_traced:
  assumes "removeSources eng w = Some (st, w')"
  shows "\<exists>R u. traced eng w R (map MapRemoveSource (sourceIdsToRemove w @ sources_of R)) st u
     \<and> appended w R u \<and> w' = (if st = Returned then u\<lparr>sourceIdsToRemove := []\<rparr> else u)"
  using drain_traced [where cs = "\<lambda>x. [MapRemoveSource x]" and sel = sources_of
      and arr = sourceIdsToRemove and eng = eng
      and body = "\<lambda>sourceId. invoke eng (MapRemoveSource sourceId)"
      and reset = "\<lambda>u. u\<lparr>sourceIdsToRemove := []\<rparr>" and w = w and st = st and w' = w']
    assms
  by (simp add: removeSources_def invoke_traced arr_appended concat_singletons)

lemma removeMarkers_traced:
  assumes "removeMarkers eng w = Some (st, w')"
  shows "\<exists>R u. traced eng w R (map MarkerRemove (markersToRemove w @ markers_of R)) st u
     \<and> appended w R u \<and> w' = (if st = Returned then u\<lparr>markersToRemove := []\<rparr> else u)"
  using drain_traced [where cs = "\<lambda>x. [MarkerRemove x]" and sel = markers_of
      and arr = markersToRemove and eng = eng
      and body = "\<lambda>m. invoke eng (MarkerRemove m)"
      and reset = "\<lambda>u. u\<lparr>markersToRemove := []\<rparr>" and w = w and st = st and w' = w']
    assms
  by (simp add: removeMarkers_def invoke_traced arr_appended concat_singletons)

lemma removePopups_traced:
  assumes "removePopups eng w = Some (st, w')"
  shows "\<exists>R u. traced eng w R (map PopupRemove (popupsToRemove w @ popups_of R)) st u
     \<and> appended w R u \<and> w' = (if st = Returned then u\<lparr>popupsToRemove := []\<rparr> else u)"
  using drain_traced [where cs = "\<lambda>x. [PopupRemove x]" and sel = popups_of
      and arr = popupsToRemove and eng = eng
      and body = "\<lambda>p. invoke eng (PopupRemove p)"
      and reset = "\<lambda>u. u\<lparr>popupsToRemove := []\<rparr>" and w = w and st = st and w' = w']
    assms
  by (simp add: removePopups_def invoke_traced arr_appended concat_singletons)

lemma removeImages_traced:
  assumes "removeImages eng w = Some (st, w')"
  shows "\<exists>R u. traced eng w R (map MapRemoveImage (imageIdsToRemove w @ images_of R)) st u
     \<and> appended w R u \<and> w' = (if st = Returned then u\<lparr>imageIdsToRemove := []\<rparr> else u)"
  using drain_traced [where cs = "\<lambda>x. [MapRemoveImage x]" and sel = images_of
      and arr = imageIdsToRemove and eng = eng
      and body = "\<lambda>imageId. invoke eng (MapRemoveImage imageId)"
      and reset = "\<lambda>u. u\<lparr>imageIdsToRemove := []\<rparr>" and w = w and st = st and w' = w']
    assms
  by (simp add: removeImages_def invoke_traced arr_appended concat_singletons)

lemma traced_Returned:
  "traced eng w R cs Returned u \<Longrightarrow> calls u = calls w @ cs \<and> reentered u = reentered w @ R"
  by (simp add: traced_def stopped_def)

lemma removeLayers_Returned:
  assumes "removeLayers eng w = Some (Returned, w')"
  shows "\<exists>R. reentered w' = reentered w @ R \<and>
     calls w' = calls w @ concat (map layer_calls (layerIdsToRemove w @ layers_of R)) \<and>
     layerIdsToRemove w' = [] \<and>
     sourceIdsToRemove w' = sourceIdsToRemove w @ sources_of R \<and>
     markersToRemove w' = markersToRemove w @ markers_of R \<and>
     popupsToRemove w' = popupsToRemove w @ popups_of R \<and>
     imageIdsToRemove w' = imageIdsToRemove w @ images_of R"
proof -
  obtain R u where
    "traced eng w R (concat (map layer_calls (layerIdsToRemove w @ layers_of R))) Returned u"
    "appended w R u" "w' = u\<lparr>layerIdsToRemove := []\<rparr>"
    using removeLayers_traced [OF assms] by auto
  then show ?thesis
    using traced_Returned [of eng w R _ u] by (intro exI [of _ R]) (simp add: appended_def)
qed

lemma removeSources_Returned:
  assumes "removeSources eng w = Some (Returned, w')"
  shows "\<exists>R. reentered w' = reentered w @ R \<and>
     calls w' = calls w @ map MapRemoveSource (sourceIdsToRemove w @ sources_of R) \<and>
     layerIdsToRemove w' = layerIdsToRemove w @ layers_of R \<and>
     sourceIdsToRemove w' = [] \<and>
     markersToRemove w' = markersToRemove w @ markers_of R \<and>
     popupsToRemove w' = popupsToRemove w @ popups_of R \<and>
     imageIdsToRemove w' = imageIdsToRemove w @ images_of R"
proof -
  obtain R u where
    "traced eng w R (map MapRemoveSource (sourceIdsToRemove w @ sources_of R)) Returned u"
    "appended w R u" "w' = u\<lparr>sourceIdsToRemove := []\<rparr>"
    using removeSources_traced [OF assms] by auto
  then show ?thesis
    using traced_Returned [of eng w R _ u] by (intro exI [of _ R]) (simp add: appended_def)
qed

lemma removeMarkers_Returned:
  assumes "removeMarkers eng w = Some (Returned, w')"
  shows "\<exists>R. reentered w' = reentered w @ R \<and>
     calls w' = calls w @ map MarkerRemove (markersToRemove w @ markers_of R) \<and>
     layerIdsToRemove w' = layerIdsToRemove w @ layers_of R \<and>
     sourceIdsToRemove w' = sourceIdsToRemove w @ sources_of R \<and>
     markersToRemove w' = [] \<and>
     popupsToRemove w' = popupsToRemove w @ popups_of R \<and>
     imageIdsToRemove w' = imageIdsToRemove w @ images_of R"
proof -
  obtain R u where
    "traced eng w R (map MarkerRemove (markersToRemove w @ markers_of R)) Returned u"
    "appended w R u" "w' = u\<lparr>markersToRemove := []\<rparr>"
    using removeMarkers_traced [OF assms] by auto
  then show ?thesis
    using traced_Returned [of eng w R _ u] by (intro exI [of _ R]) (simp add: appended_def)
qed

lemma removePopups_Returned:
  assumes "removePopups eng w = Some (Returned, w')"
  shows "\<exists>R. reentered w' = reentered w @ R \<and>
     calls w' = calls w @ map PopupRemove (popupsToRemove w @ popups_of R) \<and>
     layerIdsToRemove w' = layerIdsToRemove w @ layers_of R \<and>
     sourceIdsToRemove w' = sourceIdsToRemove w @ sources_of R \<and>
     markersToRemove w' = markersToRemove w @ markers_of R \<and>
     popupsToRemove w' = [] \<and>
     imageIdsToRemove w' = imageIdsToRemove w @ images_of R"
proof -
  obtain R u where
    "traced eng w R (map PopupRemove (popupsToRemove w @ popups_of R)) Returned u"
    "appended w R u" "w' = u\<lparr>popupsToRemove := []\<rparr>"
    using removePopups_traced [OF assms] by auto
  then show ?thesis
    using traced_Returned [of eng w R _ u] by (intro exI [of _ R]) (simp add: appended_def)
qed

lemma removeImages_Returned:
  assumes "removeImages eng w = Some (Returned, w')"
  shows "\<exists>R. reentered w' = reentered w @ R \<and>
     calls w' = calls w @ map MapRemoveImage (imageIdsToRemove w @ images_of R) \<and>
     layerIdsToRemove w' = layerIdsToRemove w @ layers_of R \<and>
     sourceIdsToRemove w' = sourceIdsToRemove w @ sources_of R \<and>
     markersToRemove w' = markersToRemove w @ markers_of R \<and>
     popupsToRemove w' = popupsToRemove w @ popups_of R \<and>
     imageIdsToRemove w' = []"
proof -
  obtain R u where
    "traced eng w R (map MapRemoveImage (imageIdsToRemove w @ images_of R)) Returned u"
    "appended w R u" "w' = u\<lparr>imageIdsToRemove := []\<rparr>"
    using removeImages_traced [OF assms] by auto
  then show ?thesis
    using traced_Returned [of eng w R _ u] by (intro exI [of _ R]) (simp add: appended_def)
qed

lemma and_then_Returned:
  assumes "and_then r f = Some (Returned, w')"
  obtains v where "r = Some (Returned, v)" and "f v = Some (Returned, w')"
  using assms by (cases rule: and_then_Some) simp_all

lemma chatty_flush: "applyChanges chatty_engine (removeMarker 1 ready) = Some (Returned, chatted)"
  by (simp add: applyChanges_def removeLayers_def removeSources_def removeMarkers_def
      removePopups_def removeImages_def for_of.simps invoke_def chatty_engine_def
      answering_engine_def removeMarker_def removeImage_def removeLayer_def ready_def
      new_MapService_def chatted_def)

lemma traced_prefix:
  "traced eng w R cs st w' \<Longrightarrow> \<exists>p. calls w' = calls w @ p \<and> prefix p cs"
  unfolding traced_def stopped_def
  by (cases st) (auto simp: prefix_def)

lemma phase_traced:
  assumes "\<exists>R u. traced eng w R (G (arr w @ sel R)) st u \<and> appended w R u
      \<and> w' = (if st = Returned then reset u else u)"
    and "\<And>u. calls (reset u) = calls u" and "\<And>u. reentered (reset u) = reentered u"
    and "\<And>u. mapInstance (reset u) = mapInstance u"
  shows "\<exists>xs R. traced eng w R (G xs) st w'"
proof -
  obtain R u where u: "traced eng w R (G (arr w @ sel R)) st u"
    "w' = (if st = Returned then reset u else u)"
    using assms(1) by blast
  have "traced eng w R (G (arr w @ sel R)) st w'"
    using u assms(2-4) traced_final [of "reset u" u eng w R "G (arr w @ sel R)" st]
    by (cases "st = Returned") simp_all
  then show ?thesis
    by blast
qed

lemma traced_step:
  assumes t: "\<exists>R. traced eng w R A s v"
    and run: "and_then (Some (s, v)) f = Some (s', v')"
    and phase: "\<And>u st u'. f u = Some (st, u') \<Longrightarrow> \<exists>xs R'. traced eng u R' (G xs) st u'"
    and nil: "G [] = []"
  shows "\<exists>xs R'. traced eng w R' (A @ G xs) s' v'"
proof -
  obtain R where R: "traced eng w R A s v"
    using t by blast
  show ?thesis
    using run
  proof (cases rule: and_then_Some)
    case (thrown x u)
    then have "traced eng w R (A @ G []) s' v'"
      using R nil by simp
    then show ?thesis
      by blast
  next
    case (returned u)
    then obtain xs R' where "traced eng u R' (G xs) s' v'"
      using phase by blast
    then have "traced eng w (R @ R') (A @ G xs) s' v'"
      using R returned traced_seq [of eng w R A u R' "G xs" s' v'] by simp
    then show ?thesis
      by blast
  qed
qed

lemma and_then_defined:
  assumes "and_then r f = Some y"
  obtains s v where "r = Some (s, v)"
  using assms by (cases rule: and_then_Some) simp_all

lemma applyChanges_shape:
  assumes "applyChanges eng w = Some (st, w')"
  shows "\<exists>ls ss ms ps is R. traced eng w R (flush_calls ls ss ms ps is) st w'"
proof -
  let ?r1 = "removeLayers eng w"
  let ?r2 = "and_then ?r1 (removeSources eng)"
  let ?r3 = "and_then ?r2 (removeMarkers eng)"
  let ?r4 = "and_then ?r3 (removePopups eng)"
  have r5: "and_then ?r4 (removeImages eng) = Some (st, w')"
    using assms by (simp add: applyChanges_def)
  then obtain s4 v4 where r4: "?r4 = Some (s4, v4)"
    by (rule and_then_defined)
  then obtain s3 v3 where r3: "?r3 = Some (s3, v3)"
    by (rule and_then_defined)
  then obtain s2 v2 where r2: "?r2 = Some (s2, v2)"
    by (rule and_then_defined)
  then obtain s1 v1 where r1: "?r1 = Some (s1, v1)"
    by (rule and_then_defined)
  have p1: "\<exists>xs R. traced eng u R (concat (map layer_calls xs)) s u'"
    if "removeLayers eng u = Some (s, u')" for u s u'
    using removeLayers_traced [OF that]
    by (rule phase_traced [where G = "\<lambda>xs. concat (map layer_calls xs)"]) simp_all
  have p2: "\<exists>xs R. traced eng u R (map MapRemoveSource xs) s u'"
    if "removeSources eng u = Some (s, u')" for u s u'
    using removeSources_traced [OF that]
    by (rule phase_traced [where G = "map MapRemoveSource"]) simp_all
  have p3: "\<exists>xs R. traced eng u R (map MarkerRemove xs) s u'"
    if "removeMarkers eng u = Some (s, u')" for u s u'
    using removeMarkers_traced [OF that]
    by (rule phase_traced [where G = "map MarkerRemove"]) simp_all
  have p4: "\<exists>xs R. traced eng u R (map PopupRemove xs) s u'"
    if "removePopups eng u = Some (s, u')" for u s u'
    using removePopups_traced [OF that]
    by (rule phase_traced [where G = "map PopupRemove"]) simp_all
  have p5: "\<exists>xs R. traced eng u R (map MapRemoveImage xs) s u'"
    if "removeImages eng u = Some (s, u')" for u s u'
    using removeImages_traced [OF that]
    by (rule phase_traced [where G = "map MapRemoveImage"]) simp_all
  obtain ls where 1: "\<exists>R. traced eng w R (concat (map layer_calls ls)) s1 v1"
    using p1 [OF r1] by blast
  have "\<exists>ss R. traced eng w R (concat (map layer_calls ls) @ map MapRemoveSource ss) s2 v2"
  proof (rule traced_step [where f = "removeSources eng" and G = "map MapRemoveSource", OF 1])
    show "and_then (Some (s1, v1)) (removeSources eng) = Some (s2, v2)"
      using r1 r2 by simp
  qed (simp_all add: p2)
  then obtain ss where 2:
    "\<exists>R. traced eng w R (concat (map layer_calls ls) @ map MapRemoveSource ss) s2 v2"
    by blast
  have "\<exists>ms R. traced eng w R ((concat (map layer_calls ls) @ map MapRemoveSource ss)
        @ map MarkerRemove ms) s3 v3"
  proof (rule traced_step [where f = "removeMarkers eng" and G = "map MarkerRemove", OF 2])
    show "and_then (Some (s2, v2)) (removeMarkers eng) = Some (s3, v3)"
      using r2 r3 by simp
  qed (simp_all add: p3)
  then obtain ms where 3:
    "\<exists>R. traced eng w R ((concat (map layer_calls ls) @ map MapRemoveSource ss)
        @ map MarkerRemove ms) s3 v3"
    by blast
  have "\<exists>ps R. traced eng w R (((concat (map layer_calls ls) @ map MapRemoveSource ss)
        @ map MarkerRemove ms) @ map PopupRemove ps) s4 v4"
  proof (rule traced_step [where f = "removePopups eng" and G = "map PopupRemove", OF 3])
    show "and_then (Some (s3, v3)) (removePopups eng) = Some (s4, v4)"
      using r3 r4 by simp
  qed (simp_all add: p4)
  then obtain ps where 4:
    "\<exists>R. traced eng w R (((concat (map layer_calls ls) @ map MapRemoveSource ss)
        @ map MarkerRemove ms) @ map PopupRemove ps) s4 v4"
    by blast
  have "\<exists>is R. traced eng w R ((((concat (map layer_calls ls) @ map MapRemoveSource ss)
        @ map MarkerRemove ms) @ map PopupRemove ps) @ map MapRemoveImage is) st w'"
  proof (rule traced_step [where f = "removeImages eng" and G = "map MapRemoveImage", OF 4])
    show "and_then (Some (s4, v4)) (removeImages eng) = Some (st, w')"
      using r4 r5 by simp
  qed (simp_all add: p5)
  then show ?thesis
    unfolding flush_calls_def by (simp only: append_assoc) blast
qed

section \<open>Positions in the calls of a flush\<close>

lemma length_layer_calls [simp]: "length (layer_calls l) = 5"
  by (simp add: layer_calls_def)

lemma layer_calls_nth:
  assumes "j < 5" and "layer_calls l ! j = MapRemoveLayer a"
  shows "j = 4 \<and> a = l"
proof -
  consider "j = 0" | "j = 1" | "j = 2" | "j = 3" | "j = 4"
    using assms(1) by linarith
  then show ?thesis
    using assms(2) by cases (simp_all add: layer_calls_def)
qed

lemma layer_calls_offs:
  "layer_calls l ! 0 = MapOff ''click'' l" "layer_calls l ! Suc 0 = MapOff ''mouseenter'' l"
  "layer_calls l ! 2 = MapOff ''mouseleave'' l" "layer_calls l ! 3 = MapOff ''mousemove'' l"
  by (simp_all add: layer_calls_def numeral_2_eq_2 numeral_3_eq_3)

lemma layer_block_nth:
  assumes "\<forall>x\<in>set rest. \<forall>b. x \<noteq> MapRemoveLayer b"
    and "j < length (concat (map layer_calls ls) @ rest)"
    and "(concat (map layer_calls ls) @ rest) ! j = MapRemoveLayer a"
  shows "4 \<le> j \<and> j < length (concat (map layer_calls ls)) \<and>
     (concat (map layer_calls ls) @ rest) ! (j - 4) = MapOff ''click'' a \<and>
     (concat (map layer_calls ls) @ rest) ! (j - 3) = MapOff ''mouseenter'' a \<and>
     (concat (map layer_calls ls) @ rest) ! (j - 2) = MapOff ''mouseleave'' a \<and>
     (concat (map layer_calls ls) @ rest) ! (j - 1) = MapOff ''mousemove'' a"
  using assms(2,3)
proof (induction ls arbitrary: j)
  case Nil
  then have "MapRemoveLayer a \<in> set rest"
    using nth_mem [of j rest] by simp
  then show ?case
    using assms(1) by blast
next
  case (Cons l ls)
  let ?T = "concat (map layer_calls ls) @ rest"
  have xs: "concat (map layer_calls (l # ls)) @ rest = layer_calls l @ ?T"
    by simp
  show ?case
  proof (cases "j < 5")
    case True
    then have "layer_calls l ! j = MapRemoveLayer a"
      using Cons.prems(2) unfolding xs by (simp add: nth_append)
    then have j: "j = 4" "a = l"
      using True layer_calls_nth by blast+
    show ?thesis
      unfolding xs j using layer_calls_offs [of l] by (simp add: nth_append)
  next
    case False
    then have j: "5 \<le> j"
      by simp
    have nth: "(layer_calls l @ ?T) ! i = ?T ! (i - 5)" if "5 \<le> i" for i
      using that by (simp add: nth_append)
    have "j - 5 < length ?T" "?T ! (j - 5) = MapRemoveLayer a"
      using Cons.prems j unfolding xs by (simp_all add: nth_append)
    then have ih: "4 \<le> j - 5" "j - 5 < length (concat (map layer_calls ls))"
      "?T ! (j - 5 - 4) = MapOff ''click'' a" "?T ! (j - 5 - 3) = MapOff ''mouseenter'' a"
      "?T ! (j - 5 - 2) = MapOff ''mouseleave'' a" "?T ! (j - 5 - 1) = MapOff ''mousemove'' a"
      using Cons.IH [of "j - 5"] by blast+
    have "j - 4 - 5 = j - 5 - 4" "j - 3 - 5 = j - 5 - 3" "j - 2 - 5 = j - 5 - 2"
      "j - 1 - 5 = j - 5 - 1" "5 \<le> j - 4" "5 \<le> j - 3" "5 \<le> j - 2" "5 \<le> j - 1"
      using ih(1) by simp_all
    then have "(layer_calls l @ ?T) ! (j - 4) = MapOff ''click'' a"
      "(layer_calls l @ ?T) ! (j - 3) = MapOff ''mouseenter'' a"
      "(layer_calls l @ ?T) ! (j - 2) = MapOff ''mouseleave'' a"
      "(layer_calls l @ ?T) ! (j - 1) = MapOff ''mousemove'' a"
      using ih(3-6) by (simp_all only: nth)
    moreover have "4 \<le> j" "j < length (concat (map layer_calls (l # ls)))"
      using ih(1,2) j by simp_all
    ultimately show ?thesis
      unfolding xs by blast
  qed
qed

lemma flush_calls_order:
  assumes "j < length (flush_calls ls ss ms ps is)"
    and "flush_calls ls ss ms ps is ! j = MapRemoveLayer a"
  shows "4 \<le> j \<and> j < length (concat (map layer_calls ls)) \<and>
     flush_calls ls ss ms ps is ! (j - 4) = MapOff ''click'' a \<and>
     flush_calls ls ss ms ps is ! (j - 3) = MapOff ''mouseenter'' a \<and>
     flush_calls ls ss ms ps is ! (j - 2) = MapOff ''mouseleave'' a \<and>
     flush_calls ls ss ms ps is ! (j - 1) = MapOff ''mousemove'' a"
  using assms unfolding flush_calls_def
  by (intro layer_block_nth) auto

lemma flush_calls_source:
  assumes "k < length (flush_calls ls ss ms ps is)"
    and "flush_calls ls ss ms ps is ! k = MapRemoveSource b"
  shows "length (concat (map layer_calls ls)) \<le> k"
proof (rule ccontr)
  assume "\<not> length (concat (map layer_calls ls)) \<le> k"
  then have k: "k < length (concat (map layer_calls ls))"
    by simp
  then have "concat (map layer_calls ls) ! k = MapRemoveSource b"
    using assms(2) unfolding flush_calls_def by (simp add: nth_append)
  then have "MapRemoveSource b \<in> set (concat (map layer_calls ls))"
    using k nth_mem by metis
  then show False
    by (auto simp: layer_calls_def)
qed

lemma failing_flush:
  "applyChanges (failing_engine (MapRemoveLayer ''l1'')) stocked
     = Some (Thrown (MapRemoveLayer ''l1''),
         stocked\<lparr>calls := layer_calls ''l1''\<rparr>)"
  by (simp add: applyChanges_def removeLayers_def removeSources_def removeMarkers_def
      removePopups_def removeImages_def for_of.simps invoke_def failing_engine_def
      removeMarker_def removeImage_def removeLayer_def removeSource_def ready_def
      new_MapService_def stocked_def layer_calls_def)

lemma quiet_flush:
  "applyChanges quiet_engine stocked
     = Some (Returned, (drained 5 stocked)\<lparr>calls := calls stocked @ pending_calls stocked\<rparr>)"
proof -
  have "silent quiet_engine" "mapInstance stocked"
    by (simp_all add: silent_def quiet_engine_def stocked_fields)
  moreover have "\<forall>i<length (pending_calls stocked).
      \<not> throws (quiet_engine (at_call stocked (take i (pending_calls stocked))
          (pending_calls stocked ! i)) (pending_calls stocked ! i))"
    by (simp add: quiet_engine_def)
  ultimately show ?thesis
    by (rule flush_returns)
qed

section \<open>The claims\<close>

text \<open>
  Claim C1. Take any sequence of removal requests made since the five arrays were empty,
  a created map, and an engine whose calls return and whose listeners make no request
  while the flush runs. Then one call of \<^verbatim>\<open>applyChanges\<close> returns, and the engine calls it
  makes are exactly one teardown for every requested entry: the layers first, then the
  sources, the markers, the popups and the images, and within each kind in the order of
  the requests.
\<close>

theorem flush_tears_down_every_entry_once_in_order:
  assumes "silent eng" and "unfailing eng" and "mapInstance w" and "pending_empty w"
  shows "\<exists>w'. applyChanges eng (fold perform rs w) = Some (Returned, w') \<and>
     calls w' = calls w @
       flush_calls (layers_of rs) (sources_of rs) (markers_of rs) (popups_of rs) (images_of rs)"
proof -
  let ?v = "fold perform rs w"
  have v: "calls ?v = calls w" "mapInstance ?v"
    using fold_perform_appended [of w rs] assms(3) by (simp_all add: appended_def)
  obtain st w' where r: "applyChanges eng ?v = Some (st, w')"
    and t: "traced eng ?v [] (pending_calls ?v) st w'"
    using applyChanges_silent [OF assms(1), of ?v] unfolding after_def by blast
  have st: "st = Returned"
    using assms(2) v(2) t by (rule unfailing_Returned)
  then have "calls w' = calls ?v @ pending_calls ?v"
    using t by (auto simp: traced_def stopped_def)
  then show ?thesis
    using r st v(1) pending_calls_fold_perform [OF assms(4)] by simp
qed

text \<open>The scenario of the specification: layer l1, source s1, marker 1, then layer l2.\<close>

theorem flush_tears_down_every_entry_once_in_order_witness:
  "silent quiet_engine \<and> unfailing quiet_engine \<and> mapInstance ready \<and> pending_empty ready \<and>
   (\<exists>w'. applyChanges quiet_engine
        (fold perform [RemoveLayer ''l1'', RemoveSource ''s1'', RemoveMarker 1,
           RemoveLayer ''l2''] ready) = Some (Returned, w') \<and>
      calls w' =
        [MapOff ''click'' ''l1'', MapOff ''mouseenter'' ''l1'', MapOff ''mouseleave'' ''l1'',
         MapOff ''mousemove'' ''l1'', MapRemoveLayer ''l1'',
         MapOff ''click'' ''l2'', MapOff ''mouseenter'' ''l2'', MapOff ''mouseleave'' ''l2'',
         MapOff ''mousemove'' ''l2'', MapRemoveLayer ''l2'',
         MapRemoveSource ''s1'', MarkerRemove 1])"
proof -
  have h: "silent quiet_engine" "unfailing quiet_engine" "mapInstance ready"
    "pending_empty ready"
    by (simp_all add: silent_def unfailing_def quiet_engine_def pending_empty_def ready_def
        new_MapService_def)
  have c: "calls ready = []"
    by (simp add: ready_def new_MapService_def)
  show ?thesis
    using h flush_tears_down_every_entry_once_in_order [OF h,
        of "[RemoveLayer ''l1'', RemoveSource ''s1'', RemoveMarker 1, RemoveLayer ''l2'']"]
    by (simp add: c flush_calls_def layer_calls_def of_Cons)
qed

text \<open>
  Claim C2, as amended. No method of the service catches an exception of the engine. Take
  a created map and listeners that make no request. When the engine throws at a call \<open>x\<close>
  that the pending entries require, in the state in which the flush makes it, and the
  calls \<open>q\<close> required before it have returned, \<^verbatim>\<open>applyChanges\<close> ends with the exception of
  \<open>x\<close>: \<open>x\<close> is the last call made, and the calls required after it, for the rest of its
  kind and for all later kinds, are not made. When no required call throws, the flush
  returns having made them all. In every case the flush ends, and when it ends with an
  exception, it is that of a required call at which the engine threw.
\<close>

theorem flush_failure_leaves_the_flush:
  assumes "silent eng" and "mapInstance w"
  shows "(pending_calls w = q @ x # rest \<and>
      (\<forall>i<length q. \<not> throws (eng (at_call w (take i q) (q ! i)) (q ! i))) \<and>
      throws (eng (at_call w q x) x)
        \<longrightarrow> applyChanges eng w = Some (Thrown x, at_call w (q @ [x]) x)) \<and>
     ((\<forall>i<length (pending_calls w).
         \<not> throws (eng (at_call w (take i (pending_calls w)) (pending_calls w ! i))
             (pending_calls w ! i)))
        \<longrightarrow> applyChanges eng w
          = Some (Returned, (drained 5 w)\<lparr>calls := calls w @ pending_calls w\<rparr>)) \<and>
     (\<exists>st w'. applyChanges eng w = Some (st, w') \<and>
        (\<forall>y. st = Thrown y \<longrightarrow>
           (\<exists>v. throws (eng v y)) \<and>
           (\<exists>p rest. pending_calls w = p @ y # rest \<and> calls w' = calls w @ p @ [y])) \<and>
        ((\<exists>y\<in>set (pending_calls w). \<forall>v. throws (eng v y)) \<longrightarrow> st \<noteq> Returned))"
proof -
  obtain st w' where r: "applyChanges eng w = Some (st, w')"
    and t: "traced eng w [] (pending_calls w) st w'"
    using silent_flush [OF assms(1)] by blast
  obtain p where p: "calls w' = calls w @ p" "stopped eng True (pending_calls w) st p"
    using t assms(2) unfolding traced_def by auto
  have "(\<exists>v. throws (eng v y)) \<and>
        (\<exists>p rest. pending_calls w = p @ y # rest \<and> calls w' = calls w @ p @ [y])"
    if "st = Thrown y" for y
    using p that unfolding stopped_def may_throw_def by auto
  moreover have "st \<noteq> Returned" if "\<exists>y\<in>set (pending_calls w). \<forall>v. throws (eng v y)"
    using p(2) that unfolding stopped_def may_return_def by (cases st) auto
  ultimately have old: "\<exists>st w'. applyChanges eng w = Some (st, w') \<and>
        (\<forall>y. st = Thrown y \<longrightarrow>
           (\<exists>v. throws (eng v y)) \<and>
           (\<exists>p rest. pending_calls w = p @ y # rest \<and> calls w' = calls w @ p @ [y])) \<and>
        ((\<exists>y\<in>set (pending_calls w). \<forall>v. throws (eng v y)) \<longrightarrow> st \<noteq> Returned)"
    using r by blast
  show ?thesis
    using old flush_throws_at [OF assms, of q x rest] flush_returns [OF assms] by blast
qed

text \<open>
  Claim C2 as stated fails: when the removal of layer l1 throws, the exception leaves the
  flush, and layer l2, source s1, marker 1 and image i1 are neither processed nor dropped.
\<close>

theorem flush_failure_is_caught_counterexample:
  "outcome (applyChanges (failing_engine (MapRemoveLayer ''l1'')) stocked)
     = Some (Thrown (MapRemoveLayer ''l1'')) \<and>
   final calls (applyChanges (failing_engine (MapRemoveLayer ''l1'')) stocked)
     = Some [MapOff ''click'' ''l1'', MapOff ''mouseenter'' ''l1'', MapOff ''mouseleave'' ''l1'',
         MapOff ''mousemove'' ''l1'', MapRemoveLayer ''l1''] \<and>
   final layerIdsToRemove (applyChanges (failing_engine (MapRemoveLayer ''l1'')) stocked)
     = Some [''l1'', ''l2''] \<and>
   final sourceIdsToRemove (applyChanges (failing_engine (MapRemoveLayer ''l1'')) stocked)
     = Some [''s1''] \<and>
   final markersToRemove (applyChanges (failing_engine (MapRemoveLayer ''l1'')) stocked)
     = Some [1] \<and>
   final imageIdsToRemove (applyChanges (failing_engine (MapRemoveLayer ''l1'')) stocked)
     = Some [''i1'']"
  by code_simp

text \<open>
  The scenario of the specification: image i1 is requested twice and its second removal
  throws, since the image is gone. The exception leaves the flush.
\<close>

theorem flush_failure_leaves_the_flush_witness:
  "silent repeat_failing_engine \<and> mapInstance (removeImage ''i1'' (removeImage ''i1'' ready)) \<and>
   pending_calls (removeImage ''i1'' (removeImage ''i1'' ready))
     = [MapRemoveImage ''i1''] @ MapRemoveImage ''i1'' # [] \<and>
   \<not> throws (repeat_failing_engine
       (at_call (removeImage ''i1'' (removeImage ''i1'' ready)) [] (MapRemoveImage ''i1''))
       (MapRemoveImage ''i1'')) \<and>
   throws (repeat_failing_engine
       (at_call (removeImage ''i1'' (removeImage ''i1'' ready)) [MapRemoveImage ''i1'']
          (MapRemoveImage ''i1''))
       (MapRemoveImage ''i1'')) \<and>
   applyChanges repeat_failing_engine (removeImage ''i1'' (removeImage ''i1'' ready))
     = Some (Thrown (MapRemoveImage ''i1''),
         at_call (removeImage ''i1'' (removeImage ''i1'' ready))
           [MapRemoveImage ''i1'', MapRemoveImage ''i1''] (MapRemoveImage ''i1'')) \<and>
   imageIdsToRemove (at_call (removeImage ''i1'' (removeImage ''i1'' ready))
       [MapRemoveImage ''i1'', MapRemoveImage ''i1''] (MapRemoveImage ''i1''))
     = [''i1'', ''i1''] \<and>
   silent quiet_engine \<and> mapInstance stocked \<and>
   applyChanges quiet_engine stocked
     = Some (Returned, (drained 5 stocked)\<lparr>calls := calls stocked @ pending_calls stocked\<rparr>)"
proof -
  let ?w = "removeImage ''i1'' (removeImage ''i1'' ready)"
  let ?x = "MapRemoveImage ''i1''"
  have h: "silent repeat_failing_engine" "mapInstance ?w"
    by (simp_all add: silent_def repeat_failing_engine_def removeImage_def ready_def
        new_MapService_def)
  have p: "pending_calls ?w = [?x] @ ?x # []"
    by (simp add: pending_calls_def flush_calls_def removeImage_def ready_def
        new_MapService_def)
  have c: "calls ?w = []"
    by (simp add: removeImage_def ready_def new_MapService_def)
  have n: "\<not> throws (repeat_failing_engine (at_call ?w [] ?x) ?x)"
    and t: "throws (repeat_failing_engine (at_call ?w [?x] ?x) ?x)"
    by (simp_all add: repeat_failing_engine_def at_call_def c)
  have b: "\<forall>i<length [?x]. \<not> throws (repeat_failing_engine
      (at_call ?w (take i [?x]) ([?x] ! i)) ([?x] ! i))"
    using n by simp
  have r: "applyChanges repeat_failing_engine ?w = Some (Thrown ?x, at_call ?w [?x, ?x] ?x)"
    using flush_failure_leaves_the_flush [OF h, of "[?x]" ?x "[]"] p b t by simp
  have i: "imageIdsToRemove (at_call ?w [?x, ?x] ?x) = [''i1'', ''i1'']"
    by (simp add: at_call_def removeImage_def ready_def new_MapService_def)
  have q: "silent quiet_engine" "mapInstance stocked"
    by (simp_all add: silent_def quiet_engine_def stocked_fields)
  have "\<forall>i<length (pending_calls stocked).
      \<not> throws (quiet_engine (at_call stocked (take i (pending_calls stocked))
          (pending_calls stocked ! i)) (pending_calls stocked ! i))"
    by (simp add: quiet_engine_def)
  then have g: "applyChanges quiet_engine stocked
     = Some (Returned, (drained 5 stocked)\<lparr>calls := calls stocked @ pending_calls stocked\<rparr>)"
    using flush_failure_leaves_the_flush [OF q] by blast
  show ?thesis
    using h p n t r i q g by blast
qed

text \<open>
  Claim C3, as amended. The loops read the arrays as they are, and no copy is taken when
  the flush starts. When a flush returns, let \<open>R1\<close> to \<open>R5\<close> be the requests that
  listeners made during the loop of the layers, sources, markers, popups and images. A
  request made during the loop of its own kind or of an earlier kind is processed by this
  same flush, after the entries that were pending at the start, and is not pending
  afterwards; a request is left for the next flush only when the loop of its kind had
  already ended.
\<close>

theorem request_made_during_a_flush:
  assumes "applyChanges eng w = Some (Returned, w')"
  shows "\<exists>w1 w2 w3 w4 R1 R2 R3 R4 R5.
     removeLayers eng w = Some (Returned, w1) \<and> reentered w1 = reentered w @ R1 \<and>
     removeSources eng w1 = Some (Returned, w2) \<and> reentered w2 = reentered w1 @ R2 \<and>
     removeMarkers eng w2 = Some (Returned, w3) \<and> reentered w3 = reentered w2 @ R3 \<and>
     removePopups eng w3 = Some (Returned, w4) \<and> reentered w4 = reentered w3 @ R4 \<and>
     removeImages eng w4 = Some (Returned, w') \<and> reentered w' = reentered w4 @ R5 \<and>
     calls w' = calls w @
       flush_calls (layerIdsToRemove w @ layers_of R1)
         (sourceIdsToRemove w @ sources_of (R1 @ R2))
         (markersToRemove w @ markers_of (R1 @ R2 @ R3))
         (popupsToRemove w @ popups_of (R1 @ R2 @ R3 @ R4))
         (imageIdsToRemove w @ images_of (R1 @ R2 @ R3 @ R4 @ R5)) \<and>
     layerIdsToRemove w' = layers_of (R2 @ R3 @ R4 @ R5) \<and>
     sourceIdsToRemove w' = sources_of (R3 @ R4 @ R5) \<and>
     markersToRemove w' = markers_of (R4 @ R5) \<and>
     popupsToRemove w' = popups_of R5 \<and>
     imageIdsToRemove w' = []"
proof -
  from assms obtain w4 where
    r4: "and_then (and_then (and_then (removeLayers eng w) (removeSources eng))
        (removeMarkers eng)) (removePopups eng) = Some (Returned, w4)"
    and p5: "removeImages eng w4 = Some (Returned, w')"
    unfolding applyChanges_def by (rule and_then_Returned)
  from r4 obtain w3 where
    r3: "and_then (and_then (removeLayers eng w) (removeSources eng)) (removeMarkers eng)
        = Some (Returned, w3)"
    and p4: "removePopups eng w3 = Some (Returned, w4)"
    by (rule and_then_Returned)
  from r3 obtain w2 where
    r2: "and_then (removeLayers eng w) (removeSources eng) = Some (Returned, w2)"
    and p3: "removeMarkers eng w2 = Some (Returned, w3)"
    by (rule and_then_Returned)
  from r2 obtain w1 where p1: "removeLayers eng w = Some (Returned, w1)"
    and p2: "removeSources eng w1 = Some (Returned, w2)"
    by (rule and_then_Returned)
  obtain R1 where 1: "reentered w1 = reentered w @ R1"
    "calls w1 = calls w @ concat (map layer_calls (layerIdsToRemove w @ layers_of R1))"
    "layerIdsToRemove w1 = []"
    "sourceIdsToRemove w1 = sourceIdsToRemove w @ sources_of R1"
    "markersToRemove w1 = markersToRemove w @ markers_of R1"
    "popupsToRemove w1 = popupsToRemove w @ popups_of R1"
    "imageIdsToRemove w1 = imageIdsToRemove w @ images_of R1"
    using removeLayers_Returned [OF p1] by blast
  obtain R2 where 2: "reentered w2 = reentered w1 @ R2"
    "calls w2 = calls w1 @ map MapRemoveSource (sourceIdsToRemove w1 @ sources_of R2)"
    "layerIdsToRemove w2 = layerIdsToRemove w1 @ layers_of R2"
    "sourceIdsToRemove w2 = []"
    "markersToRemove w2 = markersToRemove w1 @ markers_of R2"
    "popupsToRemove w2 = popupsToRemove w1 @ popups_of R2"
    "imageIdsToRemove w2 = imageIdsToRemove w1 @ images_of R2"
    using removeSources_Returned [OF p2] by blast
  obtain R3 where 3: "reentered w3 = reentered w2 @ R3"
    "calls w3 = calls w2 @ map MarkerRemove (markersToRemove w2 @ markers_of R3)"
    "layerIdsToRemove w3 = layerIdsToRemove w2 @ layers_of R3"
    "sourceIdsToRemove w3 = sourceIdsToRemove w2 @ sources_of R3"
    "markersToRemove w3 = []"
    "popupsToRemove w3 = popupsToRemove w2 @ popups_of R3"
    "imageIdsToRemove w3 = imageIdsToRemove w2 @ images_of R3"
    using removeMarkers_Returned [OF p3] by blast
  obtain R4 where 4: "reentered w4 = reentered w3 @ R4"
    "calls w4 = calls w3 @ map PopupRemove (popupsToRemove w3 @ popups_of R4)"
    "layerIdsToRemove w4 = layerIdsToRemove w3 @ layers_of R4"
    "sourceIdsToRemove w4 = sourceIdsToRemove w3 @ sources_of R4"
    "markersToRemove w4 = markersToRemove w3 @ markers_of R4"
    "popupsToRemove w4 = []"
    "imageIdsToRemove w4 = imageIdsToRemove w3 @ images_of R4"
    using removePopups_Returned [OF p4] by blast
  obtain R5 where 5: "reentered w' = reentered w4 @ R5"
    "calls w' = calls w4 @ map MapRemoveImage (imageIdsToRemove w4 @ images_of R5)"
    "layerIdsToRemove w' = layerIdsToRemove w4 @ layers_of R5"
    "sourceIdsToRemove w' = sourceIdsToRemove w4 @ sources_of R5"
    "markersToRemove w' = markersToRemove w4 @ markers_of R5"
    "popupsToRemove w' = popupsToRemove w4 @ popups_of R5"
    "imageIdsToRemove w' = []"
    using removeImages_Returned [OF p5] by blast
  have c: "calls w' = calls w @
       flush_calls (layerIdsToRemove w @ layers_of R1)
         (sourceIdsToRemove w @ sources_of (R1 @ R2))
         (markersToRemove w @ markers_of (R1 @ R2 @ R3))
         (popupsToRemove w @ popups_of (R1 @ R2 @ R3 @ R4))
         (imageIdsToRemove w @ images_of (R1 @ R2 @ R3 @ R4 @ R5))"
    by (simp add: flush_calls_def 1 2 3 4 5)
  have s: "layerIdsToRemove w' = layers_of (R2 @ R3 @ R4 @ R5)"
    "sourceIdsToRemove w' = sources_of (R3 @ R4 @ R5)"
    "markersToRemove w' = markers_of (R4 @ R5)"
    "popupsToRemove w' = popups_of R5"
    by (simp_all add: 1 2 3 4 5)
  show ?thesis
    using p1 p2 p3 p4 p5 1(1) 2(1) 3(1) 4(1) 5(1) c s 5(7) by blast
qed

text \<open>
  Claim C3 as stated fails: marker 2 and image i9, requested while marker 1 is removed,
  are removed by the flush that is running and are not pending when it returns; only
  layer l9 waits for the next flush.
\<close>

theorem request_made_during_a_flush_is_deferred_counterexample:
  "final reentered (applyChanges chatty_engine (removeMarker 1 ready))
     = Some [RemoveMarker 2, RemoveImage ''i9'', RemoveLayer ''l9''] \<and>
   final calls (applyChanges chatty_engine (removeMarker 1 ready))
     = Some [MarkerRemove 1, MarkerRemove 2, MapRemoveImage ''i9''] \<and>
   final markersToRemove (applyChanges chatty_engine (removeMarker 1 ready)) = Some [] \<and>
   final imageIdsToRemove (applyChanges chatty_engine (removeMarker 1 ready)) = Some [] \<and>
   final layerIdsToRemove (applyChanges chatty_engine (removeMarker 1 ready)) = Some [''l9'']"
  by code_simp

theorem request_made_during_a_flush_witness:
  "applyChanges chatty_engine (removeMarker 1 ready) = Some (Returned, chatted) \<and>
   layerIdsToRemove chatted = [''l9''] \<and> markersToRemove chatted = [] \<and>
   (\<exists>w1 w2 w3 w4 R1 R2 R3 R4 R5.
     removeLayers chatty_engine (removeMarker 1 ready) = Some (Returned, w1) \<and> reentered w1 = reentered (removeMarker 1 ready) @ R1 \<and>
     removeSources chatty_engine w1 = Some (Returned, w2) \<and> reentered w2 = reentered w1 @ R2 \<and>
     removeMarkers chatty_engine w2 = Some (Returned, w3) \<and> reentered w3 = reentered w2 @ R3 \<and>
     removePopups chatty_engine w3 = Some (Returned, w4) \<and> reentered w4 = reentered w3 @ R4 \<and>
     removeImages chatty_engine w4 = Some (Returned, chatted) \<and> reentered chatted = reentered w4 @ R5 \<and>
     calls chatted = calls (removeMarker 1 ready) @
       flush_calls (layerIdsToRemove (removeMarker 1 ready) @ layers_of R1)
         (sourceIdsToRemove (removeMarker 1 ready) @ sources_of (R1 @ R2))
         (markersToRemove (removeMarker 1 ready) @ markers_of (R1 @ R2 @ R3))
         (popupsToRemove (removeMarker 1 ready) @ popups_of (R1 @ R2 @ R3 @ R4))
         (imageIdsToRemove (removeMarker 1 ready) @ images_of (R1 @ R2 @ R3 @ R4 @ R5)) \<and>
     layerIdsToRemove chatted = layers_of (R2 @ R3 @ R4 @ R5) \<and>
     sourceIdsToRemove chatted = sources_of (R3 @ R4 @ R5) \<and>
     markersToRemove chatted = markers_of (R4 @ R5) \<and>
     popupsToRemove chatted = popups_of R5 \<and>
     imageIdsToRemove chatted = [])"
proof -
  have r: "applyChanges chatty_engine (removeMarker 1 ready) = Some (Returned, chatted)"
    by (rule chatty_flush)
  have f: "layerIdsToRemove chatted = [''l9'']" "markersToRemove chatted = []"
    by (simp_all add: chatted_def ready_def new_MapService_def)
  show ?thesis
    by (intro conjI r f request_made_during_a_flush [OF r])
qed

text \<open>
  Claim C4, as amended. \<^verbatim>\<open>destroyMap\<close> cancels the subscription of \<^verbatim>\<open>applyChanges\<close> and
  keeps the entries that are pending. From then on, whatever is requested and even if the
  map is created again, a firing of the trigger makes no engine call and changes nothing:
  the pending entries are not cleared, they stay in their arrays and no trigger processes
  them.
\<close>

theorem trigger_after_destroyMap_does_nothing:
  "destroyed (snd (destroyMap eng w)) \<and>
   prefix (layerIdsToRemove w) (layerIdsToRemove (snd (destroyMap eng w))) \<and>
   prefix (sourceIdsToRemove w) (sourceIdsToRemove (snd (destroyMap eng w))) \<and>
   prefix (markersToRemove w) (markersToRemove (snd (destroyMap eng w))) \<and>
   prefix (popupsToRemove w) (popupsToRemove (snd (destroyMap eng w))) \<and>
   prefix (imageIdsToRemove w) (imageIdsToRemove (snd (destroyMap eng w))) \<and>
   (destroyed w \<longrightarrow>
      onMicrotaskEmpty eng w = Some (Returned, w) \<and>
      destroyed (perform r w) \<and> destroyed (snd (createMap eng w)))"
proof -
  let ?u = "w\<lparr>subscription_closed := True, subChanges := 0, subResize := 0\<rparr>"
  obtain st w' where d: "invoke eng MapRemove ?u = (st, w')"
    by (cases "invoke eng MapRemove ?u")
  have 1: "destroyed (snd (destroyMap eng w))"
    "prefix (layerIdsToRemove w) (layerIdsToRemove (snd (destroyMap eng w)))"
    "prefix (sourceIdsToRemove w) (sourceIdsToRemove (snd (destroyMap eng w)))"
    "prefix (markersToRemove w) (markersToRemove (snd (destroyMap eng w)))"
    "prefix (popupsToRemove w) (popupsToRemove (snd (destroyMap eng w)))"
    "prefix (imageIdsToRemove w) (imageIdsToRemove (snd (destroyMap eng w)))"
    using invoke_flags [OF d] d by (simp_all add: destroyMap_def destroyed_def)
  have 2: "onMicrotaskEmpty eng w = Some (Returned, w)" if "destroyed w"
    using that by (simp add: onMicrotaskEmpty_def destroyed_def)
  have 3: "destroyed (perform r w)" if "destroyed w"
    using that perform_appended [of w r] by (simp add: destroyed_def appended_def)
  have 4: "destroyed (snd (createMap eng w))" if dw: "destroyed w"
  proof -
    obtain s v where c: "invoke eng MapNew w = (s, v)"
      by (cases "invoke eng MapNew w")
    show ?thesis
      using invoke_flags(1,2) [OF c] c dw
      by (cases s) (simp_all add: createMap_def destroyed_def)
  qed
  show ?thesis
    using 1 2 3 4 by blast
qed

text \<open>
  Claim C4 as stated fails in its last part: after \<^verbatim>\<open>destroyMap\<close> and a firing of the
  trigger the entries are still in the arrays, and a direct call of \<^verbatim>\<open>applyChanges\<close> makes
  the engine calls for them.
\<close>

theorem pending_entries_are_cleared_on_destroy_counterexample:
  "final layerIdsToRemove (onMicrotaskEmpty quiet_engine (snd (destroyMap quiet_engine stocked)))
     = Some [''l1'', ''l2''] \<and>
   final imageIdsToRemove (onMicrotaskEmpty quiet_engine (snd (destroyMap quiet_engine stocked)))
     = Some [''i1''] \<and>
   final calls (onMicrotaskEmpty quiet_engine (snd (destroyMap quiet_engine stocked)))
     = Some [MapRemove] \<and>
   final calls (applyChanges quiet_engine (snd (destroyMap quiet_engine stocked)))
     = Some [MapRemove,
         MapOff ''click'' ''l1'', MapOff ''mouseenter'' ''l1'', MapOff ''mouseleave'' ''l1'',
         MapOff ''mousemove'' ''l1'', MapRemoveLayer ''l1'',
         MapOff ''click'' ''l2'', MapOff ''mouseenter'' ''l2'', MapOff ''mouseleave'' ''l2'',
         MapOff ''mousemove'' ''l2'', MapRemoveLayer ''l2'',
         MapRemoveSource ''s1'', MarkerRemove 1, MapRemoveImage ''i1'']"
  by code_simp

theorem trigger_after_destroyMap_does_nothing_witness:
  "destroyed (snd (destroyMap quiet_engine stocked)) \<and>
   onMicrotaskEmpty quiet_engine (snd (destroyMap quiet_engine stocked))
     = Some (Returned, snd (destroyMap quiet_engine stocked)) \<and>
   layerIdsToRemove (snd (destroyMap quiet_engine stocked)) = [''l1'', ''l2''] \<and>
   destroyed (snd (createMap quiet_engine (snd (destroyMap quiet_engine stocked))))"
proof -
  have l: "layerIdsToRemove (snd (destroyMap quiet_engine stocked)) = [''l1'', ''l2'']"
    by code_simp
  show ?thesis
    using l trigger_after_destroyMap_does_nothing [where eng = quiet_engine and w = stocked]
      trigger_after_destroyMap_does_nothing [where eng = quiet_engine
        and w = "snd (destroyMap quiet_engine stocked)"]
    by simp
qed

text \<open>
  Claim C5. The five arrays are empty in a new service. Each of the five loops, when it
  returns, leaves its array empty, whatever the engine does. While the listeners make no
  request, \<^verbatim>\<open>applyChanges\<close> ends; all five arrays are empty when it has returned, and when
  it has ended with the exception of a call, the arrays of the kinds that come before the
  kind of that call are empty.
\<close>

theorem sequences_start_empty_and_are_reset:
  "pending_empty (new_MapService emitter listeners) \<and>
   (removeLayers eng w = Some (Returned, w1) \<longrightarrow> layerIdsToRemove w1 = []) \<and>
   (removeSources eng w = Some (Returned, w1) \<longrightarrow> sourceIdsToRemove w1 = []) \<and>
   (removeMarkers eng w = Some (Returned, w1) \<longrightarrow> markersToRemove w1 = []) \<and>
   (removePopups eng w = Some (Returned, w1) \<longrightarrow> popupsToRemove w1 = []) \<and>
   (removeImages eng w = Some (Returned, w1) \<longrightarrow> imageIdsToRemove w1 = []) \<and>
   (silent eng \<longrightarrow>
      (\<exists>st w'. applyChanges eng w = Some (st, w') \<and>
         (st = Returned \<longrightarrow> pending_empty w') \<and>
         (\<forall>x. st = Thrown x \<longrightarrow> emptied_before (stage x) w')))"
proof -
  have reset: "f w' = []"
    if "and_then loop (\<lambda>u. Some (Returned, g u)) = Some (Returned, w')" "\<And>u. f (g u) = []"
    for f :: "state \<Rightarrow> 'a list" and g loop w'
    using that by (auto simp: and_then_def split: option.splits prod.splits completion.splits)
  have "\<exists>st w'. applyChanges eng w = Some (st, w') \<and>
         (st = Returned \<longrightarrow> pending_empty w') \<and>
         (\<forall>x. st = Thrown x \<longrightarrow> emptied_before (stage x) w')" if sil: "silent eng"
  proof -
    obtain st w' where r: "applyChanges eng w = Some (st, w')"
      and d: "w' = (drained (reached st 5) w)\<lparr>calls := calls w'\<rparr>"
      using silent_flush [OF sil] by blast
    have "pending_empty w'" if "st = Returned"
      using d that drained_5_empty [where w = w and c = "calls w'"] by simp
    moreover have "emptied_before (stage x) w'" if "st = Thrown x" for x
      using d that emptied_before_drained [where w = w and c = "calls w'" and k = "stage x"]
      by simp
    ultimately show ?thesis
      using r by blast
  qed
  moreover have "pending_empty (new_MapService emitter listeners)"
    by (simp add: pending_empty_def new_MapService_def)
  moreover have "removeLayers eng w = Some (Returned, w1) \<longrightarrow> layerIdsToRemove w1 = []"
    unfolding removeLayers_def by (intro impI, erule reset) simp
  moreover have "removeSources eng w = Some (Returned, w1) \<longrightarrow> sourceIdsToRemove w1 = []"
    unfolding removeSources_def by (intro impI, erule reset) simp
  moreover have "removeMarkers eng w = Some (Returned, w1) \<longrightarrow> markersToRemove w1 = []"
    unfolding removeMarkers_def by (intro impI, erule reset) simp
  moreover have "removePopups eng w = Some (Returned, w1) \<longrightarrow> popupsToRemove w1 = []"
    unfolding removePopups_def by (intro impI, erule reset) simp
  moreover have "removeImages eng w = Some (Returned, w1) \<longrightarrow> imageIdsToRemove w1 = []"
    unfolding removeImages_def by (intro impI, erule reset) simp
  ultimately show ?thesis
    by blast
qed

theorem sequences_start_empty_and_are_reset_witness:
  "pending_empty (new_MapService False (\<lambda>p. None)) \<and>
   (\<exists>w1. removeLayers quiet_engine stocked = Some (Returned, w1) \<and> layerIdsToRemove w1 = []) \<and>
   (\<exists>w1. removeSources quiet_engine stocked = Some (Returned, w1) \<and> sourceIdsToRemove w1 = []) \<and>
   (\<exists>w1. removeMarkers quiet_engine stocked = Some (Returned, w1) \<and> markersToRemove w1 = []) \<and>
   (\<exists>w1. removePopups quiet_engine stocked = Some (Returned, w1) \<and> popupsToRemove w1 = []) \<and>
   (\<exists>w1. removeImages quiet_engine stocked = Some (Returned, w1) \<and> imageIdsToRemove w1 = []) \<and>
   silent (failing_engine (MapRemoveSource ''s1'')) \<and>
   (\<exists>w'. applyChanges (failing_engine (MapRemoveSource ''s1'')) stocked
        = Some (Thrown (MapRemoveSource ''s1''), w') \<and> layerIdsToRemove w' = []) \<and>
   silent quiet_engine \<and>
   (\<exists>w'. applyChanges quiet_engine stocked = Some (Returned, w') \<and> pending_empty w')"
proof -
  have s: "silent (failing_engine (MapRemoveSource ''s1''))" "silent quiet_engine"
    by (simp_all add: silent_def failing_engine_def quiet_engine_def)
  have o: "outcome (applyChanges (failing_engine (MapRemoveSource ''s1'')) stocked)
      = Some (Thrown (MapRemoveSource ''s1''))"
    "outcome (applyChanges quiet_engine stocked) = Some Returned"
    "outcome (removeLayers quiet_engine stocked) = Some Returned"
    "outcome (removeSources quiet_engine stocked) = Some Returned"
    "outcome (removeMarkers quiet_engine stocked) = Some Returned"
    "outcome (removePopups quiet_engine stocked) = Some Returned"
    "outcome (removeImages quiet_engine stocked) = Some Returned"
    by code_simp+
  note r = o [THEN outcome_Some]
  obtain u where u: "applyChanges (failing_engine (MapRemoveSource ''s1'')) stocked
        = Some (Thrown (MapRemoveSource ''s1''), u)"
    using r(1) by blast
  obtain st w' where f:
    "applyChanges (failing_engine (MapRemoveSource ''s1'')) stocked = Some (st, w')"
    "\<forall>x. st = Thrown x \<longrightarrow> emptied_before (stage x) w'"
    using s(1)
      sequences_start_empty_and_are_reset [of False "\<lambda>p. None"
        "failing_engine (MapRemoveSource ''s1'')" stocked]
    by blast
  have "st = Thrown (MapRemoveSource ''s1'')" "w' = u"
    using u f(1) by simp_all
  then have "layerIdsToRemove u = []"
    using f(2) by (simp add: emptied_before_def)
  then have 1: "\<exists>w'. applyChanges (failing_engine (MapRemoveSource ''s1'')) stocked
        = Some (Thrown (MapRemoveSource ''s1''), w') \<and> layerIdsToRemove w' = []"
    using u by blast
  obtain v where v: "applyChanges quiet_engine stocked = Some (Returned, v)"
    using r(2) by blast
  obtain st2 v2 where g: "applyChanges quiet_engine stocked = Some (st2, v2)"
    "st2 = Returned \<longrightarrow> pending_empty v2"
    using s(2)
      sequences_start_empty_and_are_reset [of False "\<lambda>p. None" quiet_engine stocked]
    by blast
  have "st2 = Returned" "v2 = v"
    using v g(1) by simp_all
  then have 2: "\<exists>w'. applyChanges quiet_engine stocked = Some (Returned, w') \<and> pending_empty w'"
    using v g(2) by blast
  have 3: "\<exists>w1. removeLayers quiet_engine stocked = Some (Returned, w1) \<and> layerIdsToRemove w1 = []"
    using r(3) sequences_start_empty_and_are_reset [where eng = quiet_engine and w = stocked
        and ?w1.0 = "snd (the (removeLayers quiet_engine stocked))"]
    by blast
  have 4: "\<exists>w1. removeSources quiet_engine stocked = Some (Returned, w1) \<and> sourceIdsToRemove w1 = []"
    using r(4) sequences_start_empty_and_are_reset [where eng = quiet_engine and w = stocked
        and ?w1.0 = "snd (the (removeSources quiet_engine stocked))"]
    by blast
  have 5: "\<exists>w1. removeMarkers quiet_engine stocked = Some (Returned, w1) \<and> markersToRemove w1 = []"
    using r(5) sequences_start_empty_and_are_reset [where eng = quiet_engine and w = stocked
        and ?w1.0 = "snd (the (removeMarkers quiet_engine stocked))"]
    by blast
  have 6: "\<exists>w1. removePopups quiet_engine stocked = Some (Returned, w1) \<and> popupsToRemove w1 = []"
    using r(6) sequences_start_empty_and_are_reset [where eng = quiet_engine and w = stocked
        and ?w1.0 = "snd (the (removePopups quiet_engine stocked))"]
    by blast
  have 7: "\<exists>w1. removeImages quiet_engine stocked = Some (Returned, w1) \<and> imageIdsToRemove w1 = []"
    using r(7) sequences_start_empty_and_are_reset [where eng = quiet_engine and w = stocked
        and ?w1.0 = "snd (the (removeImages quiet_engine stocked))"]
    by blast
  have 0: "pending_empty (new_MapService False (\<lambda>p. None))"
    using sequences_start_empty_and_are_reset [of False "\<lambda>p. None" quiet_engine stocked]
    by simp
  show ?thesis
    using 0 1 2 3 4 5 6 7 s by blast
qed

text \<open>
  Claim C6, as amended. Each of the five removal methods is a total function of the state;
  it appends its argument to the array of its kind, twice when it is called twice, and
  makes no engine call. The first four leave the listeners of every popup alone, and so
  does \<^verbatim>\<open>removePopupFromMap\<close> without \<^verbatim>\<open>skipCloseEvent\<close>; with it, the \<^verbatim>\<open>close\<close> listeners
  of the popup are deleted at once. An image requested twice is removed twice by the flush.
\<close>

theorem removal_request_appends_and_calls_no_engine:
  "layerIdsToRemove (removeLayer x (removeLayer x w)) = layerIdsToRemove w @ [x, x] \<and>
   sourceIdsToRemove (removeSource x (removeSource x w)) = sourceIdsToRemove w @ [x, x] \<and>
   markersToRemove (removeMarker m (removeMarker m w)) = markersToRemove w @ [m, m] \<and>
   popupsToRemove (removePopupFromMap p skip (removePopupFromMap p skip w))
     = popupsToRemove w @ [p, p] \<and>
   imageIdsToRemove (removeImage x (removeImage x w)) = imageIdsToRemove w @ [x, x] \<and>
   calls (removeLayer x w) = calls w \<and> calls (removeSource x w) = calls w \<and>
   calls (removeMarker m w) = calls w \<and> calls (removePopupFromMap p skip w) = calls w \<and>
   calls (removeImage x w) = calls w \<and>
   popup_listeners (removeLayer x w) = popup_listeners w \<and>
   popup_listeners (removeSource x w) = popup_listeners w \<and>
   popup_listeners (removeMarker m w) = popup_listeners w \<and>
   popup_listeners (removeImage x w) = popup_listeners w \<and>
   popup_listeners (removePopupFromMap p False w) = popup_listeners w \<and>
   popup_listeners (removePopupFromMap p True w)
     = (case popup_listeners w p of
          None \<Rightarrow> popup_listeners w
        | Some types \<Rightarrow> (popup_listeners w)(p := Some (removeAll ''close'' types))) \<and>
   (silent eng \<and> unfailing eng \<and> mapInstance w \<and> pending_empty w \<longrightarrow>
      (\<exists>w'. applyChanges eng (removeImage x (removeImage x w)) = Some (Returned, w') \<and>
         calls w' = calls w @ [MapRemoveImage x, MapRemoveImage x]))"
proof -
  have "\<exists>w'. applyChanges eng (removeImage x (removeImage x w)) = Some (Returned, w') \<and>
         calls w' = calls w @ [MapRemoveImage x, MapRemoveImage x]"
    if h: "silent eng \<and> unfailing eng \<and> mapInstance w \<and> pending_empty w"
  proof -
    let ?v = "removeImage x (removeImage x w)"
    have v: "calls ?v = calls w" "mapInstance ?v"
      "pending_calls ?v = [MapRemoveImage x, MapRemoveImage x]"
      using h by (simp_all add: removeImage_def pending_calls_def flush_calls_def
          pending_empty_def)
    obtain st w' where r: "applyChanges eng ?v = Some (st, w')"
      and t: "traced eng ?v [] (pending_calls ?v) st w'"
      using silent_flush [of eng ?v] h by blast
    have st: "st = Returned"
      using h v(2) t unfailing_Returned by blast
    then have "calls w' = calls ?v @ pending_calls ?v"
      using t by (auto simp: traced_def stopped_def)
    then show ?thesis
      using r st v by simp
  qed
  then show ?thesis
    by (simp add: removeLayer_def removeSource_def removeMarker_def removePopupFromMap_def
        removeImage_def Let_def delete_close_listeners_fields delete_close_listeners_def
        split: option.split)
qed

text \<open>
  Claim C6 as stated fails for \<^verbatim>\<open>removePopupFromMap\<close> with \<^verbatim>\<open>skipCloseEvent\<close>: the request
  changes the popup before any flush.
\<close>

theorem removal_request_has_no_side_effect_counterexample:
  "popup_listeners listening 1 = Some [''open'', ''close''] \<and>
   popup_listeners (removePopupFromMap 1 True listening) 1 = Some [''open'']"
  by (simp add: listening_def new_MapService_def removePopupFromMap_def
      delete_close_listeners_def)

theorem removal_request_appends_and_calls_no_engine_witness:
  "silent quiet_engine \<and> unfailing quiet_engine \<and> mapInstance ready \<and> pending_empty ready \<and>
   (\<exists>w'. applyChanges quiet_engine (removeImage ''i1'' (removeImage ''i1'' ready))
        = Some (Returned, w') \<and>
      calls w' = [MapRemoveImage ''i1'', MapRemoveImage ''i1''])"
proof -
  have h: "silent quiet_engine" "unfailing quiet_engine" "mapInstance ready"
    "pending_empty ready" "calls ready = []"
    by (simp_all add: silent_def unfailing_def quiet_engine_def pending_empty_def ready_def
        new_MapService_def)
  show ?thesis
    using h removal_request_appends_and_calls_no_engine [of "''i1''" ready 1 1 True quiet_engine]
    by simp
qed

text \<open>
  Claim C7, as amended. With a created map and listeners that make no request, an entry
  whose teardown throws is not discarded: it stays in the array of its kind, since the
  exception skips the reset of that array. When the trigger ran the flush for its one
  subscriber, the exception cancels that subscription and is reported; the entry is still
  pending then, and a later firing of the trigger runs no flush and makes no engine call,
  so the removal is not attempted again on the next cycle.
\<close>

theorem failed_entry_stays_pending:
  assumes "silent eng" and "mapInstance w" and "applyChanges eng w = Some (Thrown x, w')"
  shows "entry_pending x w' \<and>
     (subChanges w = 1 \<longrightarrow>
        onMicrotaskEmpty eng w
          = Some (Returned, w'\<lparr>subChanges := 0, reported := reported w' @ [x]\<rparr>) \<and>
        entry_pending x (w'\<lparr>subChanges := 0, reported := reported w' @ [x]\<rparr>) \<and>
        onMicrotaskEmpty eng2 (w'\<lparr>subChanges := 0, reported := reported w' @ [x]\<rparr>)
          = Some (Returned, w'\<lparr>subChanges := 0, reported := reported w' @ [x]\<rparr>))"
proof -
  obtain st v where r: "applyChanges eng w = Some (st, v)"
    and t: "traced eng w [] (pending_calls w) st v"
    and d: "v = (drained (reached st 5) w)\<lparr>calls := calls v\<rparr>"
    using silent_flush [OF assms(1)] by blast
  have st: "st = Thrown x" "v = w'"
    using r assms(3) by simp_all
  have "x \<in> set (pending_calls w)"
    using t st traced_Thrown_mem by blast
  then have "x \<in> set (pending_calls ((drained (stage x) w)\<lparr>calls := calls w'\<rparr>))"
    by (rule pending_calls_kept)
  then have "x \<in> set (pending_calls w')"
    using d st by simp
  then have e: "entry_pending x w'"
    by (rule pending_calls_entry)
  have "subChanges w' = subChanges ((drained (stage x) w)\<lparr>calls := calls w'\<rparr>)"
    using d st by simp
  then have s: "subChanges w' = subChanges w"
    by (simp add: drained_def)
  let ?u = "w'\<lparr>subChanges := 0, reported := reported w' @ [x]\<rparr>"
  have "onMicrotaskEmpty eng w = Some (Returned, ?u)" if "subChanges w = 1"
    using that s assms(3) by (simp add: onMicrotaskEmpty_def)
  moreover have "onMicrotaskEmpty eng2 ?u = Some (Returned, ?u)"
    by (simp add: onMicrotaskEmpty_def)
  ultimately show ?thesis
    using e entry_pending_flags [where x = x and n = 0 and r = "reported w' @ [x]" and w = w'] by simp
qed

text \<open>
  Claim C7 as stated fails in its first part: image i1, whose removal threw, is still in
  its array after the flush, whether \<^verbatim>\<open>applyChanges\<close> was called directly or by the trigger.
\<close>

theorem failed_entry_is_discarded_counterexample:
  "outcome (applyChanges (failing_engine (MapRemoveImage ''i1'')) (removeImage ''i1'' ready))
     = Some (Thrown (MapRemoveImage ''i1'')) \<and>
   final imageIdsToRemove
       (applyChanges (failing_engine (MapRemoveImage ''i1'')) (removeImage ''i1'' ready))
     = Some [''i1''] \<and>
   final imageIdsToRemove
       (onMicrotaskEmpty (failing_engine (MapRemoveImage ''i1'')) (removeImage ''i1'' ready))
     = Some [''i1''] \<and>
   final reported
       (onMicrotaskEmpty (failing_engine (MapRemoveImage ''i1'')) (removeImage ''i1'' ready))
     = Some [MapRemoveImage ''i1'']"
  by code_simp

theorem failed_entry_stays_pending_witness:
  "silent (failing_engine (MapRemoveImage ''i1'')) \<and> mapInstance (removeImage ''i1'' ready) \<and>
   applyChanges (failing_engine (MapRemoveImage ''i1'')) (removeImage ''i1'' ready)
     = Some (Thrown (MapRemoveImage ''i1''),
         (removeImage ''i1'' ready)\<lparr>calls := [MapRemoveImage ''i1'']\<rparr>) \<and>
   subChanges (removeImage ''i1'' ready) = 1 \<and>
   entry_pending (MapRemoveImage ''i1'')
     ((removeImage ''i1'' ready)\<lparr>calls := [MapRemoveImage ''i1'']\<rparr>) \<and>
   onMicrotaskEmpty (failing_engine (MapRemoveImage ''i1'')) (removeImage ''i1'' ready)
     = Some (Returned,
         (removeImage ''i1'' ready)\<lparr>calls := [MapRemoveImage ''i1''], subChanges := 0,
            reported := [MapRemoveImage ''i1'']\<rparr>) \<and>
   onMicrotaskEmpty quiet_engine
       ((removeImage ''i1'' ready)\<lparr>calls := [MapRemoveImage ''i1''], subChanges := 0,
          reported := [MapRemoveImage ''i1'']\<rparr>)
     = Some (Returned,
         (removeImage ''i1'' ready)\<lparr>calls := [MapRemoveImage ''i1''], subChanges := 0,
            reported := [MapRemoveImage ''i1'']\<rparr>)"
proof -
  have h: "silent (failing_engine (MapRemoveImage ''i1''))" "mapInstance (removeImage ''i1'' ready)"
    by (simp_all add: silent_def failing_engine_def removeImage_def ready_def new_MapService_def)
  have r: "applyChanges (failing_engine (MapRemoveImage ''i1'')) (removeImage ''i1'' ready)
     = Some (Thrown (MapRemoveImage ''i1''),
         (removeImage ''i1'' ready)\<lparr>calls := [MapRemoveImage ''i1'']\<rparr>)"
    by (simp add: applyChanges_def removeLayers_def removeSources_def removeMarkers_def
        removePopups_def removeImages_def for_of.simps invoke_def failing_engine_def
        removeImage_def ready_def new_MapService_def)
  have s: "subChanges (removeImage ''i1'' ready) = 1"
    "reported ((removeImage ''i1'' ready)\<lparr>calls := [MapRemoveImage ''i1'']\<rparr>) = []"
    by (simp_all add: removeImage_def ready_def new_MapService_def)
  show ?thesis
    using h r s failed_entry_stays_pending [OF h r, of quiet_engine] by simp
qed

text \<open>
  Claim C8. When the five arrays are empty, \<^verbatim>\<open>applyChanges\<close> returns the state as it was,
  whatever the engine is: no engine call is made. This is the case of a flush that follows
  a flush which returned while the listeners made no request.
\<close>

theorem flush_of_empty_queue_is_noop:
  "(pending_empty w \<longrightarrow> applyChanges eng w = Some (Returned, w)) \<and>
   (silent eng \<and> applyChanges eng w = Some (Returned, w1)
      \<longrightarrow> applyChanges eng2 w1 = Some (Returned, w1))"
proof (intro conjI impI)
  assume "pending_empty w"
  then show "applyChanges eng w = Some (Returned, w)"
    by (rule applyChanges_empty)
next
  assume a: "silent eng \<and> applyChanges eng w = Some (Returned, w1)"
  then have "after eng w (pending_calls w) 5 (Some (Returned, w1))"
    using applyChanges_silent [of eng w] by simp
  then have "w1 = (drained 5 w)\<lparr>calls := calls w1\<rparr>"
    by (rule after_Returned)
  then have "pending_empty w1"
    using drained_5_empty [where w = w and c = "calls w1"] by simp
  then show "applyChanges eng2 w1 = Some (Returned, w1)"
    by (rule applyChanges_empty)
qed

theorem flush_of_empty_queue_is_noop_witness:
  "pending_empty ready \<and> silent quiet_engine
   \<and> applyChanges quiet_engine (removeImage ''i1'' ready)
       = Some (Returned, ready\<lparr>calls := [MapRemoveImage ''i1'']\<rparr>)
   \<and> applyChanges quiet_engine ready = Some (Returned, ready)
   \<and> applyChanges quiet_engine (ready\<lparr>calls := [MapRemoveImage ''i1'']\<rparr>)
       = Some (Returned, ready\<lparr>calls := [MapRemoveImage ''i1'']\<rparr>)"
proof -
  have p: "pending_empty ready"
    by (simp add: pending_empty_def ready_def new_MapService_def)
  have s: "silent quiet_engine"
    by (simp add: silent_def quiet_engine_def)
  have f: "applyChanges quiet_engine (removeImage ''i1'' ready)
       = Some (Returned, ready\<lparr>calls := [MapRemoveImage ''i1'']\<rparr>)"
    by (simp add: applyChanges_def removeLayers_def removeSources_def removeMarkers_def
        removePopups_def removeImages_def for_of.simps invoke_def quiet_engine_def
        removeImage_def ready_def new_MapService_def)
  show ?thesis
    using p s f
      flush_of_empty_queue_is_noop [of ready quiet_engine
        "ready\<lparr>calls := [MapRemoveImage ''i1'']\<rparr>" quiet_engine]
      flush_of_empty_queue_is_noop [of "removeImage ''i1'' ready" quiet_engine
        "ready\<lparr>calls := [MapRemoveImage ''i1'']\<rparr>" quiet_engine]
    by simp
qed

text \<open>
  Claim C9. In the engine calls of a flush, however it ends and whatever the engine does,
  every \<^verbatim>\<open>removeLayer\<close> call comes right after the \<^verbatim>\<open>off\<close> calls for click, mouseenter,
  mouseleave and mousemove on the same layer, and every \<^verbatim>\<open>removeLayer\<close> call comes before
  every \<^verbatim>\<open>removeSource\<close> call.
\<close>

theorem layer_listeners_are_unbound_before_removal:
  assumes "applyChanges eng w = Some (st, w')"
  shows "\<exists>new. calls w' = calls w @ new \<and>
     (\<forall>j layerId. j < length new \<and> new ! j = MapRemoveLayer layerId \<longrightarrow>
        4 \<le> j \<and> new ! (j - 4) = MapOff ''click'' layerId \<and>
        new ! (j - 3) = MapOff ''mouseenter'' layerId \<and>
        new ! (j - 2) = MapOff ''mouseleave'' layerId \<and>
        new ! (j - 1) = MapOff ''mousemove'' layerId) \<and>
     (\<forall>j k layerId sourceId. j < length new \<and> k < length new \<and>
        new ! j = MapRemoveLayer layerId \<and> new ! k = MapRemoveSource sourceId \<longrightarrow> j < k)"
proof -
  obtain ls ss ms ps "is" R where "traced eng w R (flush_calls ls ss ms ps is) st w'"
    using applyChanges_shape [OF assms] by blast
  then obtain new zs where new: "calls w' = calls w @ new"
    and full: "flush_calls ls ss ms ps is = new @ zs"
    using traced_prefix unfolding prefix_def by blast
  let ?full = "flush_calls ls ss ms ps is"
  have nth: "?full ! i = new ! i" and len: "i < length ?full" if "i < length new" for i
    using that full by (simp_all add: nth_append)
  have a: "4 \<le> j \<and> new ! (j - 4) = MapOff ''click'' a \<and>
        new ! (j - 3) = MapOff ''mouseenter'' a \<and> new ! (j - 2) = MapOff ''mouseleave'' a \<and>
        new ! (j - 1) = MapOff ''mousemove'' a"
    if j: "j < length new" "new ! j = MapRemoveLayer a" for j a
  proof -
    have o: "4 \<le> j \<and> j < length (concat (map layer_calls ls)) \<and>
       ?full ! (j - 4) = MapOff ''click'' a \<and> ?full ! (j - 3) = MapOff ''mouseenter'' a \<and>
       ?full ! (j - 2) = MapOff ''mouseleave'' a \<and> ?full ! (j - 1) = MapOff ''mousemove'' a"
      using flush_calls_order [of j ls ss ms ps "is" a] len [OF j(1)] nth [OF j(1)] j(2)
      by simp
    have "j - 4 < length new" "j - 3 < length new" "j - 2 < length new" "j - 1 < length new"
      using j(1) by simp_all
    then show ?thesis
      using o nth by metis
  qed
  have b: "j < k"
    if jk: "j < length new" "k < length new" "new ! j = MapRemoveLayer a"
      "new ! k = MapRemoveSource c" for j k a c
  proof -
    have "j < length (concat (map layer_calls ls))"
      using flush_calls_order [of j ls ss ms ps "is" a] len [OF jk(1)] nth [OF jk(1)] jk(3)
      by simp
    moreover have "length (concat (map layer_calls ls)) \<le> k"
      using flush_calls_source [of k ls ss ms ps "is" c] len [OF jk(2)] nth [OF jk(2)] jk(4)
      by simp
    ultimately show ?thesis
      by simp
  qed
  show ?thesis
    using new a b by blast
qed

text \<open>
  The flush in which the removal of layer l1 throws, and the flush that returns, in which
  the removals of layers l1 and l2 come before that of source s1.
\<close>

theorem layer_listeners_are_unbound_before_removal_witness:
  "applyChanges (failing_engine (MapRemoveLayer ''l1'')) stocked
     = Some (Thrown (MapRemoveLayer ''l1''), stocked\<lparr>calls := layer_calls ''l1''\<rparr>) \<and>
   layer_calls ''l1'' ! 4 = MapRemoveLayer ''l1'' \<and>
   (\<exists>new. calls (stocked\<lparr>calls := layer_calls ''l1''\<rparr>) = calls stocked @ new \<and>
     (\<forall>j layerId. j < length new \<and> new ! j = MapRemoveLayer layerId \<longrightarrow>
        4 \<le> j \<and> new ! (j - 4) = MapOff ''click'' layerId \<and>
        new ! (j - 3) = MapOff ''mouseenter'' layerId \<and>
        new ! (j - 2) = MapOff ''mouseleave'' layerId \<and>
        new ! (j - 1) = MapOff ''mousemove'' layerId) \<and>
     (\<forall>j k layerId sourceId. j < length new \<and> k < length new \<and>
        new ! j = MapRemoveLayer layerId \<and> new ! k = MapRemoveSource sourceId \<longrightarrow> j < k)) \<and>
   applyChanges quiet_engine stocked
     = Some (Returned, (drained 5 stocked)\<lparr>calls := calls stocked @ pending_calls stocked\<rparr>) \<and>
   pending_calls stocked ! 9 = MapRemoveLayer ''l2'' \<and>
   pending_calls stocked ! 10 = MapRemoveSource ''s1'' \<and>
   (\<exists>new. calls ((drained 5 stocked)\<lparr>calls := calls stocked @ pending_calls stocked\<rparr>) = calls stocked @ new \<and>
     (\<forall>j layerId. j < length new \<and> new ! j = MapRemoveLayer layerId \<longrightarrow>
        4 \<le> j \<and> new ! (j - 4) = MapOff ''click'' layerId \<and>
        new ! (j - 3) = MapOff ''mouseenter'' layerId \<and>
        new ! (j - 2) = MapOff ''mouseleave'' layerId \<and>
        new ! (j - 1) = MapOff ''mousemove'' layerId) \<and>
     (\<forall>j k layerId sourceId. j < length new \<and> k < length new \<and>
        new ! j = MapRemoveLayer layerId \<and> new ! k = MapRemoveSource sourceId \<longrightarrow> j < k))"
proof -
  have n: "layer_calls ''l1'' ! 4 = MapRemoveLayer ''l1''"
    by (simp add: layer_calls_def)
  have p: "pending_calls stocked ! 9 = MapRemoveLayer ''l2''"
    "pending_calls stocked ! 10 = MapRemoveSource ''s1''"
    by (simp_all add: pending_calls_def flush_calls_def layer_calls_def stocked_fields)
  show ?thesis
    by (intro conjI failing_flush n quiet_flush p
        layer_listeners_are_unbound_before_removal [OF failing_flush]
        layer_listeners_are_unbound_before_removal [OF quiet_flush])
qed

text \<open>
  Claim C10. Each removal method appends to the array of its own kind and leaves the
  other four arrays as they were.
\<close>

theorem removal_request_is_framed_to_its_kind:
  "layerIdsToRemove (removeLayer x w) = layerIdsToRemove w @ [x] \<and>
   sourceIdsToRemove (removeLayer x w) = sourceIdsToRemove w \<and>
   markersToRemove (removeLayer x w) = markersToRemove w \<and>
   popupsToRemove (removeLayer x w) = popupsToRemove w \<and>
   imageIdsToRemove (removeLayer x w) = imageIdsToRemove w \<and>
   sourceIdsToRemove (removeSource x w) = sourceIdsToRemove w @ [x] \<and>
   layerIdsToRemove (removeSource x w) = layerIdsToRemove w \<and>
   markersToRemove (removeSource x w) = markersToRemove w \<and>
   popupsToRemove (removeSource x w) = popupsToRemove w \<and>
   imageIdsToRemove (removeSource x w) = imageIdsToRemove w \<and>
   markersToRemove (removeMarker m w) = markersToRemove w @ [m] \<and>
   layerIdsToRemove (removeMarker m w) = layerIdsToRemove w \<and>
   sourceIdsToRemove (removeMarker m w) = sourceIdsToRemove w \<and>
   popupsToRemove (removeMarker m w) = popupsToRemove w \<and>
   imageIdsToRemove (removeMarker m w) = imageIdsToRemove w \<and>
   popupsToRemove (removePopupFromMap p skip w) = popupsToRemove w @ [p] \<and>
   layerIdsToRemove (removePopupFromMap p skip w) = layerIdsToRemove w \<and>
   sourceIdsToRemove (removePopupFromMap p skip w) = sourceIdsToRemove w \<and>
   markersToRemove (removePopupFromMap p skip w) = markersToRemove w \<and>
   imageIdsToRemove (removePopupFromMap p skip w) = imageIdsToRemove w \<and>
   imageIdsToRemove (removeImage x w) = imageIdsToRemove w @ [x] \<and>
   layerIdsToRemove (removeImage x w) = layerIdsToRemove w \<and>
   sourceIdsToRemove (removeImage x w) = sourceIdsToRemove w \<and>
   markersToRemove (removeImage x w) = markersToRemove w \<and>
   popupsToRemove (removeImage x w) = popupsToRemove w"
  by (simp add: removeLayer_def removeSource_def removeMarker_def removePopupFromMap_def
      removeImage_def Let_def delete_close_listeners_fields)

theorem removal_request_is_framed_to_its_kind_witness:
  "popupsToRemove (removePopupFromMap 1 True stocked) = [1] \<and>
   layerIdsToRemove (removePopupFromMap 1 True stocked) = [''l1'', ''l2''] \<and>
   sourceIdsToRemove (removePopupFromMap 1 True stocked) = [''s1''] \<and>
   markersToRemove (removePopupFromMap 1 True stocked) = [1] \<and>
   imageIdsToRemove (removePopupFromMap 1 True stocked) = [''i1''] \<and>
   layerIdsToRemove (removeLayer ''l3'' stocked) = [''l1'', ''l2'', ''l3''] \<and>
   sourceIdsToRemove (removeLayer ''l3'' stocked) = [''s1'']"
  using removal_request_is_framed_to_its_kind [of "''l3''" stocked 1 1 True]
  by (simp add: stocked_fields)

end
